theory Spec2Isabelle
  imports Main "HOL-Library.Char_ord" "HOL-Library.List_Lexorder" "HOL-Library.Multiset"
    "HOL-Library.AList"
begin

section \<open>smart-live-rebuild: the update scheduler and its VCS back ends\<close>

text \<open>
  The development follows \<^verbatim>\<open>smart-live-rebuild.py\<close>. Python objects become records,
  exceptions become the left summand of a sum type, the answers of the outside world
  (the shell that parses an environment file, the revision query commands, the exit
  status of an update command) are inputs of the model.
\<close>

subsection \<open>Exceptions\<close>

text \<open>
  \<open>PyException\<close> is the plain \<^verbatim>\<open>Exception\<close> raised by \<^verbatim>\<open>endupdate\<close> on a non-zero exit
  status. \<open>KeyboardInterrupt\<close> derives from \<^verbatim>\<open>BaseException\<close> only, so that
  \<^verbatim>\<open>except Exception\<close> does not catch it.
\<close>

datatype exn =
    KeyError | NonLiveEbuild | ValueError | TypeError | AssertionError
  | AttributeError | OSError | IndexError | UnboundLocalError | EOFError
  | UnpicklingError | PyException | KeyboardInterrupt

definition bindE :: "exn + 'a \<Rightarrow> ('a \<Rightarrow> exn + 'b) \<Rightarrow> exn + 'b" where
  "bindE m f = (case m of Inl e \<Rightarrow> Inl e | Inr x \<Rightarrow> f x)"

subsection \<open>Strings\<close>

text \<open>
  A Python string is a sequence of code points; it is kept here as the bytes of its UTF-8
  encoding, one \<open>char\<close> for each byte. Equality, concatenation, splitting at an ASCII
  character and the order of two strings (Python compares code point by code point, which
  is the order of the encodings byte by byte) are then the operations on lists of bytes.
\<close>

text \<open>\<^verbatim>\<open>s.split(c)\<close> for a one-character separator: never the empty list.\<close>

fun split_on :: "char \<Rightarrow> string \<Rightarrow> string list" where
  "split_on c [] = [[]]"
| "split_on c (x # xs) =
     (if x = c then [] # split_on c xs
      else (case split_on c xs of [] \<Rightarrow> [[x]] | y # ys \<Rightarrow> (x # y) # ys))"

definition NUL :: char where
  "NUL = CHR 0x00"

definition NL :: char where
  "NL = CHR 0x0A"

definition SLASH :: char where
  "SLASH = CHR ''/''"

text \<open>\<^verbatim>\<open>os.path.basename\<close> and \<^verbatim>\<open>os.path.dirname\<close> of posixpath.\<close>

definition basename :: "string \<Rightarrow> string" where
  "basename p = rev (takeWhile (\<lambda>c. c \<noteq> SLASH) (rev p))"

definition dirname :: "string \<Rightarrow> string" where
  "dirname p =
     (let head = rev (dropWhile (\<lambda>c. c \<noteq> SLASH) (rev p))
      in if head \<noteq> [] \<and> head \<noteq> replicate (length head) SLASH
         then rev (dropWhile (\<lambda>c. c = SLASH) (rev head))
         else head)"

text \<open>
  The code points of a string, as integers. \<open>utf8 need acc low bs\<close> reads the bytes \<open>bs\<close>, with \<open>need\<close>
  continuation bytes still to come for the code point whose leading bits are \<open>acc\<close> and
  which must not be below \<open>low\<close> (no overlong form); surrogates and code points above
  \<^verbatim>\<open>U+10FFFF\<close> are refused. A list of bytes that is not the encoding of a string gives
  \<open>None\<close>.
\<close>

fun utf8 :: "nat \<Rightarrow> int \<Rightarrow> int \<Rightarrow> string \<Rightarrow> int list option" where
  "utf8 need acc low [] = (if need = 0 then Some [] else None)"
| "utf8 need acc low (c # cs) =
     (let b = of_char c in
      if need = 0 then
        (if b < 0x80 then map_option ((#) b) (utf8 0 0 0 cs)
         else if 0xC2 \<le> b \<and> b < 0xE0 then utf8 1 (b - 0xC0) 0x80 cs
         else if 0xE0 \<le> b \<and> b < 0xF0 then utf8 2 (b - 0xE0) 0x800 cs
         else if 0xF0 \<le> b \<and> b < 0xF5 then utf8 3 (b - 0xF0) 0x10000 cs
         else None)
      else if 0x80 \<le> b \<and> b < 0xC0 then
        (let acc' = acc * 64 + (b - 0x80) in
         if need = 1 then
           (if low \<le> acc' \<and> acc' < 0x110000 \<and> \<not> (0xD800 \<le> acc' \<and> acc' < 0xE000)
            then map_option ((#) acc') (utf8 0 0 0 cs)
            else None)
         else utf8 (need - 1) acc' low cs)
      else None)"

definition code_points :: "string \<Rightarrow> int list option" where
  "code_points s = utf8 0 0 0 s"

text \<open>
  The class \<^verbatim>\<open>\d\<close> of a \<^verbatim>\<open>str\<close> pattern (Python 3): the characters of the Unicode category
  \<^verbatim>\<open>Nd\<close>, decimal digits. They come in runs of ten, from the digit zero to the digit nine of
  a script; \<open>nd_zeros\<close> lists the zeros (Unicode 14.0, the table of CPython 3.11), the first
  of them \<^verbatim>\<open>U+0030\<close>, the ASCII digit.
\<close>

definition nd_zeros :: "int list" where
  "nd_zeros = [0x30, 0x660, 0x6F0, 0x7C0, 0x966, 0x9E6, 0xA66, 0xAE6, 0xB66, 0xBE6, 0xC66,
     0xCE6, 0xD66, 0xDE6, 0xE50, 0xED0, 0xF20, 0x1040, 0x1090, 0x17E0, 0x1810, 0x1946, 0x19D0,
     0x1A80, 0x1A90, 0x1B50, 0x1BB0, 0x1C40, 0x1C50, 0xA620, 0xA8D0, 0xA900, 0xA9D0, 0xA9F0,
     0xAA50, 0xABF0, 0xFF10, 0x104A0, 0x10D30, 0x11066, 0x110F0, 0x11136, 0x111D0, 0x112F0,
     0x11450, 0x114D0, 0x11650, 0x116C0, 0x11730, 0x118E0, 0x11950, 0x11C50, 0x11D50, 0x11DA0,
     0x16A60, 0x16AC0, 0x16B50, 0x1D7CE, 0x1D7D8, 0x1D7E2, 0x1D7EC, 0x1D7F6, 0x1E140, 0x1E2F0,
     0x1E950, 0x1FBF0]"

definition decimal_digit :: "int \<Rightarrow> bool" where
  "decimal_digit cp = list_ex (\<lambda>z. z \<le> cp \<and> cp < z + 10) nd_zeros"

text \<open>What \<^verbatim>\<open>\d+\<close> matches in full: one or more decimal digits.\<close>

definition digits :: "string \<Rightarrow> bool" where
  "digits s = (case code_points s of
                 None \<Rightarrow> False
               | Some cps \<Rightarrow> cps \<noteq> [] \<and> list_all decimal_digit cps)"

subsection \<open>Options and the outside world\<close>

record opts =
  jobs :: int
  network :: bool
  local_rev :: bool
  erraneous_merge :: bool
  quickpkg :: bool
  pretend :: bool
  offline :: bool

text \<open>
  What the outside world answers for the working copy at one path: whether
  \<^verbatim>\<open>os.chdir\<close> succeeds, what \<^verbatim>\<open>self.call\<close> of the revision query returns when
  \<^verbatim>\<open>startupdate\<close> makes it and when \<^verbatim>\<open>endupdate\<close> makes it (\<open>None\<close> when the command
  cannot be run and \<^verbatim>\<open>Popen\<close> raises \<^verbatim>\<open>OSError\<close>), how many times \<^verbatim>\<open>poll()\<close> answers \<^verbatim>\<open>None\<close>
  before the update command has exited, and its exit status.
\<close>

record responses =
  chdir_ok :: bool
  call_start :: "string option"
  polls :: nat
  status :: int
  call_end :: "string option"

record world =
  distdir :: string
  resp :: "string \<Rightarrow> responses"


subsection \<open>The VCS classes\<close>

datatype vcs_class = GitSupport | HgSupport | SvnSupport

fun inherit :: "vcs_class \<Rightarrow> string" where
  "inherit GitSupport = ''git''"
| "inherit HgSupport = ''mercurial''"
| "inherit SvnSupport = ''subversion''"

fun reqenv :: "vcs_class \<Rightarrow> string list" where
  "reqenv GitSupport = [''EGIT_BRANCH'', ''EGIT_PROJECT'', ''EGIT_STORE_DIR'', ''EGIT_UPDATE_CMD'']"
| "reqenv HgSupport = [''EHG_PROJECT'', ''EHG_PULL_CMD'', ''EHG_REPO_URI'']"
| "reqenv SvnSupport = [''ESVN_STORE_DIR'', ''ESVN_UPDATE_CMD'', ''ESVN_WC_PATH'']"

fun optenv :: "vcs_class \<Rightarrow> string list" where
  "optenv GitSupport = [''EGIT_COMMIT'', ''EGIT_DIFFSTAT_CMD'', ''EGIT_HAS_SUBMODULES'',
     ''EGIT_OPTIONS'', ''EGIT_REPO_URI'', ''EGIT_VERSION'']"
| "optenv HgSupport = [''EHG_REVISION'']"
| "optenv SvnSupport = [''ESVN_REVISION'', ''ESVN_OPTIONS'', ''ESVN_PASSWORD'',
     ''ESVN_REPO_URI'', ''ESVN_USER'', ''ESVN_WC_REVISION'']"

definition vcsl :: "vcs_class list" where
  "vcsl = [GitSupport, HgSupport, SvnSupport]"

definition match :: "vcs_class \<Rightarrow> string list \<Rightarrow> bool" where
  "match c inherits = (inherit c \<in> set inherits)"

text \<open>
  An attribute of an object is unbound until it is assigned; reading it unbound raises
  \<^verbatim>\<open>AttributeError\<close>. A revision is a string or \<^verbatim>\<open>None\<close>. A \<^verbatim>\<open>Popen\<close> handle carries the
  working directory it was started in, its command line, the number of polls that still answer \<^verbatim>\<open>None\<close> and the exit status.
\<close>

datatype 'a attr = Unset | Bound 'a

type_synonym revision = "string option"

record popen =
  cwd :: string
  cmdline :: string
  remaining :: nat
  returncode :: int

record vcs =
  cls :: vcs_class
  cpv :: "string list"
  env :: "(string \<times> string) list"
  oldrev :: "revision attr"
  subprocess :: "popen option attr"

text \<open>\<^verbatim>\<open>dict(zip(vars, self.call([...]).split('\0')))\<close>, on the output of the shell.\<close>

definition bashparse :: "string \<Rightarrow> string list \<Rightarrow> (string \<times> string) list" where
  "bashparse out vars = zip vars (split_on NUL out)"

text \<open>\<^verbatim>\<open>self.env[v]\<close>\<close>

definition getenv :: "vcs \<Rightarrow> string \<Rightarrow> exn + string" where
  "getenv self v = (case map_of (env self) v of None \<Rightarrow> Inl KeyError | Some s \<Rightarrow> Inr s)"

text \<open>
  \<^verbatim>\<open>VCSSupport.__init__\<close>: the list comprehension reads \<^verbatim>\<open>self.env[v]\<close> for every
  required variable (a missing key raises \<^verbatim>\<open>KeyError\<close>), then a non-empty list of
  empty ones raises \<^verbatim>\<open>KeyError\<close> too.
\<close>

definition VCSSupport_init :: "vcs_class \<Rightarrow> string \<Rightarrow> string \<Rightarrow> exn + vcs" where
  "VCSSupport_init c cpv0 out =
     (let e = bashparse out (reqenv c @ optenv c) in
      if \<exists>v \<in> set (reqenv c). map_of e v = None then Inl KeyError
      else let missingvars = filter (\<lambda>v. map_of e v = Some []) (reqenv c) in
        if length missingvars > 0 then Inl KeyError
        else Inr \<lparr>cls = c, cpv = [cpv0], env = e, oldrev = Unset, subprocess = Unset\<rparr>)"

text \<open>The constructors of the three subclasses.\<close>

fun vcs_init :: "vcs_class \<Rightarrow> string \<Rightarrow> string \<Rightarrow> exn + vcs" where
  "vcs_init GitSupport cpv0 out =
     bindE (VCSSupport_init GitSupport cpv0 out) (\<lambda>self.
     bindE (getenv self ''EGIT_COMMIT'') (\<lambda>commit.
     if commit \<noteq> [] then
       bindE (getenv self ''EGIT_BRANCH'') (\<lambda>branch.
       if commit \<noteq> branch then Inl NonLiveEbuild else Inr self)
     else Inr self))"
| "vcs_init HgSupport cpv0 out =
     bindE (VCSSupport_init HgSupport cpv0 out) (\<lambda>self.
     bindE (getenv self ''EHG_REVISION'') (\<lambda>r.
     if r \<noteq> [] \<and> r \<noteq> ''tip'' then Inl NonLiveEbuild else Inr self))"
| "vcs_init SvnSupport cpv0 out =
     bindE (VCSSupport_init SvnSupport cpv0 out) (\<lambda>self.
     bindE (getenv self ''ESVN_REPO_URI'') (\<lambda>uri.
     if uri \<noteq> [] \<and> CHR ''@'' \<in> set uri then Inl NonLiveEbuild
     else bindE (getenv self ''ESVN_REVISION'') (\<lambda>r.
       if r \<noteq> [] then Inl NonLiveEbuild else Inr self)))"

text \<open>
  \<^verbatim>\<open>getpath\<close>. For Mercurial, \<open>distdir w\<close> stands for
  \<^verbatim>\<open>portage.settings['PORTAGE_ACTUAL_DISTDIR'] or portage.settings['DISTDIR']\<close>.
\<close>

definition getpath :: "world \<Rightarrow> vcs \<Rightarrow> exn + string" where
  "getpath w self =
     (case cls self of
        GitSupport \<Rightarrow>
          bindE (getenv self ''EGIT_STORE_DIR'') (\<lambda>store.
          bindE (getenv self ''EGIT_PROJECT'') (\<lambda>project.
          Inr (store @ ''/'' @ project)))
      | HgSupport \<Rightarrow>
          bindE (getenv self ''EHG_REPO_URI'') (\<lambda>uri.
          let bn = (if basename uri \<noteq> [] then basename uri else basename (dirname uri)) in
          if bn = [] then Inl AssertionError
          else bindE (getenv self ''EHG_PROJECT'') (\<lambda>project.
            Inr (distdir w @ ''/hg-src/'' @ project @ ''/'' @ bn)))
      | SvnSupport \<Rightarrow> getenv self ''ESVN_WC_PATH'')"

text \<open>
  \<^verbatim>\<open>str(self)\<close>: every subclass returns the repository URI, or \<^verbatim>\<open>self.cpv\<close> when the URI
  is empty; \<^verbatim>\<open>self.cpv\<close> is a list, and \<^verbatim>\<open>str()\<close> of an object whose \<^verbatim>\<open>__str__\<close> returns
  a list raises \<^verbatim>\<open>TypeError\<close>.
\<close>

definition str_vcs :: "vcs \<Rightarrow> exn + string" where
  "str_vcs self =
     bindE (getenv self (case cls self of GitSupport \<Rightarrow> ''EGIT_REPO_URI''
                         | HgSupport \<Rightarrow> ''EHG_REPO_URI'' | SvnSupport \<Rightarrow> ''ESVN_REPO_URI''))
       (\<lambda>uri. if uri \<noteq> [] then Inr uri else Inl TypeError)"

text \<open>\<^verbatim>\<open>getsavedrev\<close>: \<^verbatim>\<open>None\<close> in the base class, which Mercurial keeps.\<close>

definition getsavedrev :: "vcs \<Rightarrow> exn + revision" where
  "getsavedrev self =
     (case cls self of
        GitSupport \<Rightarrow> bindE (getenv self ''EGIT_VERSION'') (\<lambda>v. Inr (Some v))
      | HgSupport \<Rightarrow> Inr None
      | SvnSupport \<Rightarrow> bindE (getenv self ''ESVN_WC_REVISION'') (\<lambda>v. Inr (Some v)))"

text \<open>Truth value of a revision: \<^verbatim>\<open>None\<close> and the empty string are false.\<close>

definition truthy :: "revision \<Rightarrow> bool" where
  "truthy r = (case r of None \<Rightarrow> False | Some s \<Rightarrow> s \<noteq> [])"

text \<open>
  \<^verbatim>\<open>revre = re.compile('(?m)^Last Changed Rev: (\d+)$')\<close> and \<^verbatim>\<open>revre.search\<close>: the first
  line (lines end at \<^verbatim>\<open>'\n'\<close>) that is the prefix followed by one or more decimal digits;
  group 1 is the digits.
\<close>

definition revre_line :: "string \<Rightarrow> bool" where
  "revre_line l = (take 18 l = ''Last Changed Rev: '' \<and> digits (drop 18 l))"

definition revre_search :: "string \<Rightarrow> string option" where
  "revre_search s =
     (case filter revre_line (split_on NL s) of [] \<Rightarrow> None | l # _ \<Rightarrow> Some (drop 18 l))"

text \<open>
  \<^verbatim>\<open>getrev\<close>, given what the revision query command answers to \<^verbatim>\<open>self.call\<close>. Git takes
  the first line of the output (\<^verbatim>\<open>.split('\n')[0]\<close>), after reading two environment
  variables.
\<close>

definition call :: "string option \<Rightarrow> exn + string" where
  "call answer = (case answer of None \<Rightarrow> Inl OSError | Some out \<Rightarrow> Inr out)"

definition getrev :: "vcs \<Rightarrow> string option \<Rightarrow> exn + revision" where
  "getrev self answer =
     (case cls self of
        GitSupport \<Rightarrow>
          bindE (getenv self ''EGIT_BRANCH'') (\<lambda>branch.
          bindE (getenv self ''EGIT_HAS_SUBMODULES'') (\<lambda>sub.
          bindE (call answer) (\<lambda>out. Inr (Some (takeWhile (\<lambda>c. c \<noteq> NL) out)))))
      | HgSupport \<Rightarrow> bindE (call answer) (\<lambda>out. Inr (Some out))
      | SvnSupport \<Rightarrow> bindE (call answer) (\<lambda>svninfo. Inr (revre_search svninfo)))"

text \<open>
  \<^verbatim>\<open>revcmp\<close>: equality in the base class; Subversion overrides it with \<^verbatim>\<open>oldrev >= newrev\<close>,
  the order of Python strings (lexicographic by character code). Ordering a string
  against \<^verbatim>\<open>None\<close> raises \<^verbatim>\<open>TypeError\<close> (Python 3).
\<close>

definition revcmp :: "vcs_class \<Rightarrow> revision \<Rightarrow> revision \<Rightarrow> exn + bool" where
  "revcmp c oldr newr =
     (case c of
        SvnSupport \<Rightarrow>
          (case (oldr, newr) of
             (Some a, Some b) \<Rightarrow> Inr (a \<ge> b)
           | _ \<Rightarrow> Inl TypeError)
      | _ \<Rightarrow> Inr (oldr = newr))"

text \<open>\<^verbatim>\<open>getupdatecmd\<close>\<close>

definition trustopt :: "string list" where
  "trustopt = [''--config'', ''trusted.users=portage'']"

definition join :: "string \<Rightarrow> string list \<Rightarrow> string" where
  "join sep xs = (case xs of [] \<Rightarrow> [] | y # ys \<Rightarrow> foldl (\<lambda>acc x. acc @ sep @ x) y ys)"

definition getupdatecmd :: "vcs \<Rightarrow> exn + string" where
  "getupdatecmd self =
     (case cls self of
        GitSupport \<Rightarrow>
          bindE (getenv self ''EGIT_HAS_SUBMODULES'') (\<lambda>sub.
          bindE (getenv self ''EGIT_UPDATE_CMD'') (\<lambda>ucmd.
          bindE (getenv self ''EGIT_OPTIONS'') (\<lambda>options.
          if sub \<noteq> [] then Inr (ucmd @ '' '' @ options)
          else bindE (getenv self ''EGIT_BRANCH'') (\<lambda>branch.
            Inr (ucmd @ '' '' @ options @ '' origin '' @ branch @ '':'' @ branch)))))
      | HgSupport \<Rightarrow>
          bindE (getenv self ''EHG_PULL_CMD'') (\<lambda>pull. Inr (join '' '' ([pull] @ trustopt)))
      | SvnSupport \<Rightarrow>
          bindE (getenv self ''ESVN_UPDATE_CMD'') (\<lambda>ucmd.
          bindE (getenv self ''ESVN_OPTIONS'') (\<lambda>options.
          bindE (getenv self ''ESVN_STORE_DIR'') (\<lambda>store.
          let cmd = ucmd @ '' '' @ options @ '' --config-dir '' @ store @ ''/.subversion'' in
          bindE (getenv self ''ESVN_USER'') (\<lambda>user.
          if user \<noteq> [] then
            bindE (getenv self ''ESVN_PASSWORD'') (\<lambda>password.
            Inr (cmd @ '' --user \"'' @ user @ ''\" --password \"'' @ password @ ''\"''))
          else Inr cmd)))))"

text \<open>
  \<^verbatim>\<open>diffstat\<close>: Git reads \<^verbatim>\<open>EGIT_DIFFSTAT_CMD\<close> and runs a shell command, Mercurial runs
  \<^verbatim>\<open>hg diff --stat\<close>, the base class (Subversion) does nothing. Only the exception matters.
\<close>

definition diffstat :: "vcs \<Rightarrow> exn + unit" where
  "diffstat self =
     (case cls self of
        GitSupport \<Rightarrow> bindE (getenv self ''EGIT_DIFFSTAT_CMD'') (\<lambda>d. Inr ())
      | _ \<Rightarrow> Inr ())"

subsection \<open>Starting and ending an update\<close>

text \<open>
  \<^verbatim>\<open>startupdate\<close>. The object is mutated in place; the model returns it. The flag
  \<open>sigint\<close> says that \<^verbatim>\<open>SIGINT\<close> is delivered while the method computes the old revision,
  that is before \<^verbatim>\<open>self.oldrev\<close> and \<^verbatim>\<open>self.subprocess\<close> are assigned: Python then raises
  \<^verbatim>\<open>KeyboardInterrupt\<close> there.
  \<^verbatim>\<open>(not Shared.opts.local_rev and self.getsavedrev()) or self.getrev()\<close> is the saved
  revision when \<^verbatim>\<open>local_rev\<close> is off and the saved revision is true, and \<^verbatim>\<open>getrev()\<close>
  in every other case.
\<close>

definition startupdate :: "opts \<Rightarrow> world \<Rightarrow> bool \<Rightarrow> vcs \<Rightarrow> exn + vcs" where
  "startupdate opt w sigint self =
     bindE (str_vcs self) (\<lambda>_.
     bindE (getpath w self) (\<lambda>path.
     if \<not> chdir_ok (resp w path) then Inl OSError
     else if sigint then Inl KeyboardInterrupt
     else
       bindE (if local_rev opt then getrev self (call_start (resp w path))
              else bindE (getsavedrev self) (\<lambda>saved.
                if truthy saved then Inr saved
                else getrev self (call_start (resp w path)))) (\<lambda>old.
       let self1 = self\<lparr>oldrev := Bound old\<rparr> in
       if network opt then
         bindE (getupdatecmd self1) (\<lambda>cmd.
         Inr (self1\<lparr>subprocess := Bound (Some \<lparr>cwd = path, cmdline = cmd,
                remaining = polls (resp w path), returncode = status (resp w path)\<rparr>)\<rparr>))
       else Inr (self1\<lparr>subprocess := Bound None\<rparr>))))"

text \<open>
  The second half of \<^verbatim>\<open>endupdate\<close>, from \<^verbatim>\<open>if ret == 0:\<close> on, for an exit status \<open>ret\<close>:
  \<open>Inr False\<close> is "no changes", \<open>Inr True\<close> is "update from ... to ...".
\<close>

definition resolve :: "opts \<Rightarrow> world \<Rightarrow> vcs \<Rightarrow> int \<Rightarrow> exn + bool" where
  "resolve opt w self ret =
     (if ret = 0 then
        bindE (getpath w self) (\<lambda>path.
        if \<not> chdir_ok (resp w path) then Inl OSError
        else
          bindE (getrev self (call_end (resp w path))) (\<lambda>newrev.
          bindE (if jobs opt > 1 then str_vcs self else Inr []) (\<lambda>_.
          bindE (case oldrev self of Unset \<Rightarrow> Inl AttributeError | Bound r \<Rightarrow> Inr r) (\<lambda>old.
          bindE (revcmp (cls self) old newrev) (\<lambda>same.
          if same then Inr False
          else bindE (diffstat self) (\<lambda>_. Inr True))))))
      else Inl PyException)"

text \<open>
  \<^verbatim>\<open>endupdate(blocking)\<close>: no child counts as exit status 0, \<^verbatim>\<open>wait()\<close> returns the exit
  status, \<^verbatim>\<open>poll()\<close> returns \<^verbatim>\<open>None\<close> while the child runs. The result \<open>Inr None\<close> is the
  \<^verbatim>\<open>return None\<close> of a child that still runs; the object is returned with it, since a poll
  uses up one of the remaining polls of the handle.
\<close>

definition endupdate :: "opts \<Rightarrow> world \<Rightarrow> bool \<Rightarrow> vcs \<Rightarrow> vcs \<times> (exn + bool option)" where
  "endupdate opt w blocking self =
     (case subprocess self of
        Unset \<Rightarrow> (self, Inl AttributeError)
      | Bound None \<Rightarrow> (self, map_sum id Some (resolve opt w self 0))
      | Bound (Some p) \<Rightarrow>
          if blocking then (self, map_sum id Some (resolve opt w self (returncode p)))
          else if remaining p > 0
            then (self\<lparr>subprocess := Bound (Some (p\<lparr>remaining := remaining p - 1\<rparr>))\<rparr>, Inr None)
            else (self, map_sum id Some (resolve opt w self (returncode p))))"

text \<open>
  What the scheduler does to child processes and working copies: \<open>Spawn\<close> is the
  \<^verbatim>\<open>subprocess.Popen\<close> of an update command (working directory, command line), \<open>Terminate\<close>
  is \<^verbatim>\<open>terminate()\<close> sent to the child started in that directory, \<open>Compare\<close> is the call
  \<^verbatim>\<open>self.revcmp(self.oldrev, newrev)\<close> of \<^verbatim>\<open>endupdate\<close>, made in that directory.
\<close>

datatype event = Spawn string string | Terminate string | Compare string

text \<open>
  The events of one call of \<^verbatim>\<open>endupdate\<close>: the comparison of the revisions, when the call
  gets as far as that. \<open>resolve_events\<close> goes with \<open>resolve\<close> and \<open>endupdate_events\<close> with
  \<open>endupdate\<close>, branch by branch.
\<close>

definition resolve_events :: "opts \<Rightarrow> world \<Rightarrow> vcs \<Rightarrow> int \<Rightarrow> event list" where
  "resolve_events opt w self ret =
     (if ret = 0 then
        (case getpath w self of
           Inl e \<Rightarrow> []
         | Inr path \<Rightarrow>
             if \<not> chdir_ok (resp w path) then []
             else (case getrev self (call_end (resp w path)) of
                     Inl e \<Rightarrow> []
                   | Inr newrev \<Rightarrow>
                       (case (if jobs opt > 1 then str_vcs self else Inr []) of
                          Inl e \<Rightarrow> []
                        | Inr _ \<Rightarrow>
                            (case oldrev self of Unset \<Rightarrow> [] | Bound old \<Rightarrow> [Compare path]))))
      else [])"

definition endupdate_events :: "opts \<Rightarrow> world \<Rightarrow> bool \<Rightarrow> vcs \<Rightarrow> event list" where
  "endupdate_events opt w blocking self =
     (case subprocess self of
        Unset \<Rightarrow> []
      | Bound None \<Rightarrow> resolve_events opt w self 0
      | Bound (Some p) \<Rightarrow>
          if blocking then resolve_events opt w self (returncode p)
          else if remaining p > 0 then []
          else resolve_events opt w self (returncode p))"

text \<open>
  \<^verbatim>\<open>abortupdate\<close>: reads \<^verbatim>\<open>self.subprocess\<close>, and sends \<^verbatim>\<open>terminate()\<close> to a child. It
  does not wait.
\<close>

definition abortupdate :: "vcs \<Rightarrow> exn + event list" where
  "abortupdate self =
     (case subprocess self of
        Unset \<Rightarrow> Inl AttributeError
      | Bound None \<Rightarrow> Inr []
      | Bound (Some p) \<Rightarrow> Inr [Terminate (cwd p)])"

text \<open>\<^verbatim>\<open>append\<close>: \<^verbatim>\<open>isinstance(vcs, self.__class__)\<close> holds for the same class only, since
  no class of \<^verbatim>\<open>vcsl\<close> derives from another one.\<close>

definition append_vcs :: "vcs \<Rightarrow> vcs \<Rightarrow> exn + vcs" where
  "append_vcs self other =
     (if cls other \<noteq> cls self then Inl ValueError
      else (case cpv other of
              [] \<Rightarrow> Inl IndexError
            | c # _ \<Rightarrow> Inr (self\<lparr>cpv := cpv self @ [c]\<rparr>)))"

subsection \<open>The local variables of \<^verbatim>\<open>main\<close>\<close>

text \<open>
  The lines written by \<^verbatim>\<open>out.err\<close>: for a package that is not a live one
  (\<^verbatim>\<open>'%s: %s' % (cpv, e)\<close>), for an error while enumerating a package, for an error while
  updating a repository, and for an interrupt.
\<close>

datatype logline =
    ErrNonLive string
  | ErrEnumerating string exn
  | ErrUpdating "string list" exn
  | ErrInterrupted

text \<open>
  \<open>rebuilds\<close> is the dictionary from path to object, in insertion order; \<open>ret\<close> and \<open>cur\<close>
  are the loop's variables \<^verbatim>\<open>ret\<close> and \<^verbatim>\<open>vcs\<close>, unbound before their first assignment.
  An object in \<open>processes\<close> is found by equality (\<^verbatim>\<open>in\<close>, \<^verbatim>\<open>remove\<close>): the objects of a
  run come from distinct keys of \<open>rebuilds\<close>, so they differ in their environment.
\<close>

record state =
  rebuilds :: "(string \<times> vcs) list"
  erraneous :: "string list"
  packages :: "string list"
  items :: "(string \<times> vcs) list"
  processes :: "vcs list"
  ret :: "bool option attr"
  cur :: "vcs attr"
  errlog :: "logline list"
  events :: "event list"

subsection \<open>Enumerating the packages\<close>

text \<open>
  An installed package, as the package database answers: its identifier, the words of its
  \<^verbatim>\<open>INHERITED\<close> entry, and for each class the output of the shell that sources its
  environment file and echoes the variables of that class.
\<close>

record package =
  ident :: string
  inherited :: "string list"
  shell_output :: "vcs_class \<Rightarrow> string"

text \<open>
  The body of \<^verbatim>\<open>if vcs.match(inherits):\<close> for one class. \<^verbatim>\<open>rebuilds[dir] = vcs\<close> appends a
  new key, \<^verbatim>\<open>rebuilds[dir].append(vcs)\<close> changes the object stored under the key.
\<close>

definition add_vcs ::
  "opts \<Rightarrow> world \<Rightarrow> package \<Rightarrow> vcs_class \<Rightarrow> (string \<times> vcs) list \<Rightarrow> exn + (string \<times> vcs) list" where
  "add_vcs opt w p c rb =
     bindE (vcs_init c (ident p) (shell_output p c)) (\<lambda>v.
     bindE (if network opt then Inr True
            else bindE (getsavedrev v) (\<lambda>saved. Inr (truthy saved))) (\<lambda>wanted.
     if wanted then
       bindE (getpath w v) (\<lambda>dir.
       case map_of rb dir of
         None \<Rightarrow> Inr (AList.update dir v rb)
       | Some existing \<Rightarrow>
           bindE (append_vcs existing v) (\<lambda>merged. Inr (AList.update dir merged rb)))
     else Inr rb))"

text \<open>\<^verbatim>\<open>for vcs in vcslf:\<close>; an exception leaves what earlier classes have stored.\<close>

fun scan_classes ::
  "opts \<Rightarrow> world \<Rightarrow> package \<Rightarrow> vcs_class list \<Rightarrow> (string \<times> vcs) list
     \<Rightarrow> (string \<times> vcs) list \<times> exn option" where
  "scan_classes opt w p [] rb = (rb, None)"
| "scan_classes opt w p (c # cs) rb =
     (if match c (inherited p) then
        (case add_vcs opt w p c rb of
           Inl e \<Rightarrow> (rb, Some e)
         | Inr rb' \<Rightarrow> scan_classes opt w p cs rb')
      else scan_classes opt w p cs rb)"

text \<open>
  The body of \<^verbatim>\<open>for cpv in db.cpv_all():\<close> with its handlers: \<^verbatim>\<open>NonLiveEbuild\<close> is
  reported with \<^verbatim>\<open>out.err\<close>; any other exception is reported and the package is appended
  to \<open>erraneous\<close>.
\<close>

definition enumerate_one :: "opts \<Rightarrow> world \<Rightarrow> vcs_class list \<Rightarrow> state \<Rightarrow> package \<Rightarrow> state" where
  "enumerate_one opt w vcslf st p =
     (case scan_classes opt w p vcslf (rebuilds st) of
        (rb, None) \<Rightarrow> st\<lparr>rebuilds := rb\<rparr>
      | (rb, Some e) \<Rightarrow>
          if e = NonLiveEbuild
          then st\<lparr>rebuilds := rb, errlog := errlog st @ [ErrNonLive (ident p)]\<rparr>
          else st\<lparr>rebuilds := rb, errlog := errlog st @ [ErrEnumerating (ident p) e],
                  erraneous := erraneous st @ [ident p]\<rparr>)"

text \<open>\<^verbatim>\<open>vcslf\<close>: the classes named by \<^verbatim>\<open>opts.type\<close>, all of them when it is empty or \<^verbatim>\<open>None\<close>.\<close>

definition vcslf :: "string list option \<Rightarrow> vcs_class list" where
  "vcslf types =
     (case types of
        None \<Rightarrow> vcsl
      | Some ts \<Rightarrow> if ts \<noteq> [] then filter (\<lambda>x. inherit x \<in> set ts) vcsl else vcsl)"

definition initial :: state where
  "initial = \<lparr>rebuilds = [], erraneous = [], packages = [], items = [], processes = [],
     ret = Unset, cur = Unset, errlog = [], events = []\<rparr>"

definition enumerate_packages ::
  "opts \<Rightarrow> world \<Rightarrow> string list option \<Rightarrow> package list \<Rightarrow> state" where
  "enumerate_packages opt w types pkgs = foldl (enumerate_one opt w (vcslf types)) initial pkgs"

subsection \<open>The scheduler loop\<close>

text \<open>
  \<^verbatim>\<open>for vcs in processes: ret = vcs.endupdate(); if ret is not None: ...; break\<close>. The
  result is the list with the polled objects as the polls left them, and what the loop did
  to \<^verbatim>\<open>ret\<close> and \<^verbatim>\<open>vcs\<close>: nothing (an empty list), the last assignment, or the exception
  that \<^verbatim>\<open>endupdate\<close> raised together with the object it was called on.
\<close>

datatype poll_outcome = NotAssigned | Assigned "bool option" vcs | Raised exn vcs

fun poll :: "opts \<Rightarrow> world \<Rightarrow> vcs list \<Rightarrow> vcs list \<times> poll_outcome" where
  "poll opt w [] = ([], NotAssigned)"
| "poll opt w (p # ps) =
     (case endupdate opt w False p of
        (p', Inl e) \<Rightarrow> (p' # ps, Raised e p')
      | (p', Inr (Some b)) \<Rightarrow> (p' # ps, Assigned (Some b) p')
      | (p', Inr None) \<Rightarrow>
          (case poll opt w ps of
             (ps', NotAssigned) \<Rightarrow> (p' # ps', Assigned None p')
           | (ps', r) \<Rightarrow> (p' # ps', r)))"

text \<open>The events of the calls of \<^verbatim>\<open>endupdate\<close> that this \<^verbatim>\<open>for\<close> loop makes.\<close>

fun poll_events :: "opts \<Rightarrow> world \<Rightarrow> vcs list \<Rightarrow> event list" where
  "poll_events opt w [] = []"
| "poll_events opt w (p # ps) =
     endupdate_events opt w False p
       @ (case endupdate opt w False p of
            (p', Inr None) \<Rightarrow> poll_events opt w ps
          | _ \<Rightarrow> [])"

text \<open>
  One pass through the body of \<^verbatim>\<open>while True:\<close> continues the loop, breaks it, or lets an
  exception leave \<^verbatim>\<open>main\<close>.
\<close>

datatype step = Continue state | Break state | Escape exn state

text \<open>
  \<^verbatim>\<open>except Exception as e:\<close> of the loop. Reading \<^verbatim>\<open>vcs\<close> while it is unbound raises inside
  the handler, and that exception leaves the loop.
\<close>

definition except_Exception :: "opts \<Rightarrow> exn \<Rightarrow> state \<Rightarrow> step" where
  "except_Exception opt e st =
     (case cur st of
        Unset \<Rightarrow> Escape UnboundLocalError st
      | Bound v \<Rightarrow>
          Continue (st\<lparr>errlog := errlog st @ [ErrUpdating (cpv v) e],
                       processes := (if jobs opt \<noteq> 1 \<and> v \<in> set (processes st)
                                     then remove1 v (processes st) else processes st),
                       erraneous := erraneous st @ cpv v\<rparr>))"

text \<open>\<^verbatim>\<open>for vcs in processes: vcs.abortupdate()\<close>: the signals sent, and an exception if one
  of the calls raised.\<close>

fun abort_all :: "vcs list \<Rightarrow> event list \<times> exn option" where
  "abort_all [] = ([], None)"
| "abort_all (v # vs) =
     (case abortupdate v of
        Inl e \<Rightarrow> ([], Some e)
      | Inr sent \<Rightarrow> (case abort_all vs of (evs, r) \<Rightarrow> (sent @ evs, r)))"

text \<open>\<^verbatim>\<open>except KeyboardInterrupt:\<close> of the loop: report, abort every object in
  \<^verbatim>\<open>processes\<close>, \<^verbatim>\<open>break\<close>.\<close>

definition except_KeyboardInterrupt :: "state \<Rightarrow> step" where
  "except_KeyboardInterrupt st =
     (let st1 = st\<lparr>errlog := errlog st @ [ErrInterrupted]\<rparr> in
      case abort_all (processes st1) of
        (evs, None) \<Rightarrow> Break (st1\<lparr>events := events st1 @ evs\<rparr>)
      | (evs, Some e) \<Rightarrow> Escape e (st1\<lparr>events := events st1 @ evs\<rparr>))"

definition handle :: "opts \<Rightarrow> exn \<Rightarrow> state \<Rightarrow> step" where
  "handle opt e st =
     (if e = KeyboardInterrupt then except_KeyboardInterrupt st else except_Exception opt e st)"

text \<open>
  The inner \<^verbatim>\<open>except KeyboardInterrupt: vcs.abortupdate(); raise\<close>. When \<^verbatim>\<open>abortupdate\<close>
  itself raises, that exception replaces the interrupt and reaches the handlers of the
  outer \<^verbatim>\<open>try\<close>.
\<close>

definition inner_KeyboardInterrupt :: "opts \<Rightarrow> vcs \<Rightarrow> state \<Rightarrow> step" where
  "inner_KeyboardInterrupt opt v st =
     (case abortupdate v of
        Inl e \<Rightarrow> handle opt e st
      | Inr sent \<Rightarrow> except_KeyboardInterrupt (st\<lparr>events := events st @ sent\<rparr>))"

text \<open>An exception that leaves the inner \<^verbatim>\<open>try\<close> around \<^verbatim>\<open>startupdate\<close> and
  \<^verbatim>\<open>endupdate(True)\<close>: the inner handler takes an interrupt, the handlers of the outer
  \<^verbatim>\<open>try\<close> take anything else.\<close>

definition leave_inner_try :: "opts \<Rightarrow> vcs \<Rightarrow> exn \<Rightarrow> state \<Rightarrow> step" where
  "leave_inner_try opt v e st =
     (if e = KeyboardInterrupt then inner_KeyboardInterrupt opt v st else handle opt e st)"

text \<open>The \<^verbatim>\<open>for\<close> loop over \<^verbatim>\<open>processes\<close> followed by \<^verbatim>\<open>if ret: packages.extend(vcs.cpv)\<close>.\<close>

definition poll_and_collect :: "opts \<Rightarrow> world \<Rightarrow> state \<Rightarrow> step" where
  "poll_and_collect opt w st0 =
     (let st = st0\<lparr>events := events st0 @ poll_events opt w (processes st0)\<rparr> in
      case poll opt w (processes st) of
        (ps, Raised e v) \<Rightarrow> handle opt e (st\<lparr>processes := ps, cur := Bound v\<rparr>)
      | (ps, r) \<Rightarrow>
          let st1 = (case r of
                       Assigned (Some b) v \<Rightarrow>
                         st\<lparr>processes := remove1 v ps, ret := Bound (Some b), cur := Bound v\<rparr>
                     | Assigned None v \<Rightarrow> st\<lparr>processes := ps, ret := Bound None, cur := Bound v\<rparr>
                     | _ \<Rightarrow> st\<lparr>processes := ps\<rparr>)
          in (case ret st1 of
                Unset \<Rightarrow> except_Exception opt UnboundLocalError st1
              | Bound (Some True) \<Rightarrow>
                  (case cur st1 of
                     Unset \<Rightarrow> except_Exception opt UnboundLocalError st1
                   | Bound v \<Rightarrow> Continue (st1\<lparr>packages := packages st1 @ cpv v\<rparr>))
              | Bound _ \<Rightarrow> Continue st1))"

text \<open>
  Where \<^verbatim>\<open>SIGINT\<close> may be delivered during one pass: inside \<^verbatim>\<open>startupdate\<close>, inside the
  blocking \<^verbatim>\<open>endupdate(True)\<close> of a run with one job, or inside \<^verbatim>\<open>time.sleep\<close>.
\<close>

datatype phase = Starting | Waiting | Sleeping

definition spawned :: "vcs \<Rightarrow> event list" where
  "spawned v = (case subprocess v of Bound (Some p) \<Rightarrow> [Spawn (cwd p) (cmdline p)] | _ \<Rightarrow> [])"

text \<open>
  The body of \<^verbatim>\<open>while True:\<close>; \<open>sig\<close> is the phase in which this pass is interrupted, if
  it is; an interrupt in a phase that the pass does not reach is not delivered. The polls
  of the \<^verbatim>\<open>for\<close> loop are not a phase of their own: they do not block.
\<close>

definition body :: "opts \<Rightarrow> world \<Rightarrow> phase option \<Rightarrow> state \<Rightarrow> step" where
  "body opt w sig st =
     (if int (length (processes st)) < jobs opt \<and> length (items st) > 0 then
        (case items st of
           [] \<Rightarrow> Escape IndexError st
         | (dir, v) # rest \<Rightarrow>
             let st1 = st\<lparr>items := rest, cur := Bound v\<rparr> in
             (case startupdate opt w (sig = Some Starting) v of
                Inl e \<Rightarrow> leave_inner_try opt v e st1
              | Inr v' \<Rightarrow>
                  let st2 = st1\<lparr>cur := Bound v', events := events st1 @ spawned v'\<rparr> in
                  if jobs opt = 1 then
                    (if sig = Some Waiting then inner_KeyboardInterrupt opt v' st2
                     else
                       let st3 = st2\<lparr>events := events st2 @ endupdate_events opt w True v'\<rparr> in
                       (case snd (endupdate opt w True v') of
                          Inl e \<Rightarrow> leave_inner_try opt v' e st3
                        | Inr r \<Rightarrow> poll_and_collect opt w (st3\<lparr>ret := Bound r\<rparr>)))
                  else poll_and_collect opt w (st2\<lparr>processes := processes st2 @ [v']\<rparr>)))
      else if length (processes st) = 0 then Break st
      else if sig = Some Sleeping then except_KeyboardInterrupt st
      else poll_and_collect opt w st)"

text \<open>
  The loop. \<open>sigint\<close> names the pass (counted from 0) and the phase in which the interrupt
  arrives, if any; \<open>n\<close> is the number of the current pass. A result \<open>Inr st\<close> is the state
  after the loop, \<open>Inl e\<close> an exception that left it.
\<close>

partial_function (option) scheduler ::
  "opts \<Rightarrow> world \<Rightarrow> (nat \<times> phase) option \<Rightarrow> nat \<Rightarrow> state \<Rightarrow> (exn + state) option" where
  "scheduler opt w sigint n st =
     (case body opt w (case sigint of None \<Rightarrow> None
                       | Some (k, ph) \<Rightarrow> if k = n then Some ph else None) st of
        Continue st' \<Rightarrow> scheduler opt w sigint (Suc n) st'
      | Break st' \<Rightarrow> Some (Inr st')
      | Escape e st' \<Rightarrow> Some (Inl e))"

text \<open>\<^verbatim>\<open>items = list(rebuilds.items())\<close> and the loop, after the enumeration.\<close>

definition scan ::
  "opts \<Rightarrow> world \<Rightarrow> string list option \<Rightarrow> (nat \<times> phase) option \<Rightarrow> package list
     \<Rightarrow> (exn + state) option" where
  "scan opt w types sigint pkgs =
     (let st = enumerate_packages opt w types pkgs
      in scheduler opt w sigint 0 (st\<lparr>items := rebuilds st\<rparr>))"

subsection \<open>The privileged parent\<close>

text \<open>
  What the last part of \<^verbatim>\<open>main\<close> does, in order: the message \<^verbatim>\<open>No updates found\<close>, the
  list printed under \<^verbatim>\<open>--pretend\<close>, the call of \<^verbatim>\<open>quickpkg\<close>, \<^verbatim>\<open>os.putenv('ESCM_OFFLINE',
  'true')\<close>, and \<^verbatim>\<open>os.kill(childpid, signal.SIGTERM)\<close> of the \<^verbatim>\<open>finally\<close> clause. The program
  ends by returning an exit code, by \<^verbatim>\<open>os.execv\<close> of emerge, or by an exception.
\<close>

datatype action =
    NoUpdatesFound
  | PrintList "string list"
  | CallQuickpkg "string list"
  | PutenvOffline
  | KillChild

datatype ending = Return int | Execv "string list" | Uncaught exn

text \<open>From \<^verbatim>\<open>if opts.erraneous_merge and len(erraneous) > 0:\<close> to the call of emerge.\<close>

definition finish ::
  "opts \<Rightarrow> string list \<Rightarrow> string list \<Rightarrow> string list \<Rightarrow> action list \<times> ending" where
  "finish opt args pk er =
     (let merged = (erraneous_merge opt \<and> length er > 0);
          pk1 = (if merged then pk @ er else pk);
          quick = (if quickpkg opt \<and> length pk1 \<ge> 1
                   then [CallQuickpkg ([''/usr/sbin/quickpkg'', ''--include-config=y'']
                           @ map (\<lambda>x. ''='' @ x) pk1)]
                   else [])
      in if length pk1 < 1 then (quick @ [NoUpdatesFound], Return 0)
         else if pretend opt then (quick @ [PrintList (map (\<lambda>p. ''>='' @ p) pk1)], Return 0)
         else (quick @ (if offline opt \<and> \<not> merged then [PutenvOffline] else []),
               Execv ([''emerge'', ''--oneshot''] @ args @ map (\<lambda>x. ''>='' @ x) pk1)))"

text \<open>
  \<^verbatim>\<open>pickle.load(pipe)\<close> on the bytes that the child wrote before it closed the pipe. It
  raises \<^verbatim>\<open>EOFError\<close> when the bytes end before the pickle does: on no bytes at all, and on
  the beginning of a pickle. The wire format is not modelled: \<open>decode\<close> stands for it, and
  says of a non-empty list of bytes whether it is a whole pickle of the two lists, the
  beginning of one, or neither.
\<close>

datatype 'a unpickled = Truncated | Malformed | Loaded 'a

definition pickle_load ::
  "(string \<Rightarrow> (string list \<times> string list) unpickled) \<Rightarrow> string
     \<Rightarrow> exn + string list \<times> string list" where
  "pickle_load decode bytes =
     (if bytes = [] then Inl EOFError
      else (case decode bytes of
              Truncated \<Rightarrow> Inl EOFError
            | Malformed \<Rightarrow> Inl UnpicklingError
            | Loaded pdata \<Rightarrow> Inr pdata))"

text \<open>
  The \<^verbatim>\<open>else:\<close> branch of \<^verbatim>\<open>if not childpid:\<close> and what follows it, inside
  \<^verbatim>\<open>try: ... finally: if childpid: os.kill(childpid, signal.SIGTERM)\<close>. After \<^verbatim>\<open>os.execv\<close>
  the process is emerge, and the \<^verbatim>\<open>finally\<close> clause does not run.
\<close>

definition parent ::
  "opts \<Rightarrow> string list \<Rightarrow> (string \<Rightarrow> (string list \<times> string list) unpickled) \<Rightarrow> string
     \<Rightarrow> action list \<times> ending" where
  "parent opt args decode bytes =
     (case pickle_load decode bytes of
        Inl e \<Rightarrow> if e = EOFError then ([KillChild], Return 1) else ([KillChild], Uncaught e)
      | Inr (pk, er) \<Rightarrow>
          (case finish opt args pk er of
             (acts, Execv cmd) \<Rightarrow> (acts, Execv cmd)
           | (acts, r) \<Rightarrow> (acts @ [KillChild], r)))"

section \<open>Notions used by the statements\<close>

text \<open>
  What a started object resolves to once its child has exited is what the blocking
  \<^verbatim>\<open>endupdate(True)\<close> returns; what an object of the work list resolves to is that, after
  \<^verbatim>\<open>startupdate\<close>. This is what the loop with one job computes for each object in turn.
\<close>

definition outcome :: "opts \<Rightarrow> world \<Rightarrow> vcs \<Rightarrow> exn + bool option" where
  "outcome opt w v = snd (endupdate opt w True v)"

definition task_outcome :: "opts \<Rightarrow> world \<Rightarrow> vcs \<Rightarrow> exn + bool option" where
  "task_outcome opt w v =
     (case startupdate opt w False v of Inl e \<Rightarrow> Inl e | Inr v' \<Rightarrow> outcome opt w v')"

text \<open>The identifiers that an outcome adds to \<open>packages\<close> and to \<open>erraneous\<close>; the
  comparison that resolving a started object makes; the events of an object of the work
  list, from its start to its end.\<close>

definition updated_by :: "exn + bool option \<Rightarrow> string list \<Rightarrow> string multiset" where
  "updated_by r cs = (if r = Inr (Some True) then mset cs else {#})"

definition failed_by :: "exn + bool option \<Rightarrow> string list \<Rightarrow> string multiset" where
  "failed_by r cs = (case r of Inl e \<Rightarrow> mset cs | Inr _ \<Rightarrow> {#})"

definition checked :: "opts \<Rightarrow> world \<Rightarrow> vcs \<Rightarrow> event multiset" where
  "checked opt w v = mset (endupdate_events opt w True v)"

definition traced_by :: "opts \<Rightarrow> world \<Rightarrow> vcs \<Rightarrow> event multiset" where
  "traced_by opt w v =
     (case startupdate opt w False v of
        Inl e \<Rightarrow> {#}
      | Inr v' \<Rightarrow> mset (spawned v') + checked opt w v')"

text \<open>The polls that the objects in flight and the objects of the work list still need:
  the measure along which the loop ends.\<close>

definition left_polls :: "vcs \<Rightarrow> nat" where
  "left_polls v = (case subprocess v of Bound (Some p) \<Rightarrow> remaining p | _ \<Rightarrow> 0)"

definition start_polls :: "opts \<Rightarrow> world \<Rightarrow> vcs \<Rightarrow> nat" where
  "start_polls opt w v =
     (case startupdate opt w False v of Inr v' \<Rightarrow> left_polls v' | Inl e \<Rightarrow> 0)"

definition work :: "opts \<Rightarrow> world \<Rightarrow> state \<Rightarrow> nat" where
  "work opt w st = sum_list (map (\<lambda>(d, v). 2 + start_polls opt w v) (items st))
                 + sum_list (map (\<lambda>v. 1 + left_polls v) (processes st))"

definition updated_total :: "opts \<Rightarrow> world \<Rightarrow> state \<Rightarrow> string multiset" where
  "updated_total opt w st = mset (packages st)
     + sum_list (map (\<lambda>v. updated_by (outcome opt w v) (cpv v)) (processes st))
     + sum_list (map (\<lambda>(d, v). updated_by (task_outcome opt w v) (cpv v)) (items st))"

definition failed_total :: "opts \<Rightarrow> world \<Rightarrow> state \<Rightarrow> string multiset" where
  "failed_total opt w st = mset (erraneous st)
     + sum_list (map (\<lambda>v. failed_by (outcome opt w v) (cpv v)) (processes st))
     + sum_list (map (\<lambda>(d, v). failed_by (task_outcome opt w v) (cpv v)) (items st))"

definition trace_total :: "opts \<Rightarrow> world \<Rightarrow> state \<Rightarrow> event multiset" where
  "trace_total opt w st = mset (events st)
     + sum_list (map (checked opt w) (processes st))
     + sum_list (map (\<lambda>(d, v). traced_by opt w v) (items st))"

text \<open>
  The states the loop starts from and passes through: at least one job; with one job
  nothing is in flight between two passes; the objects of the work list have not been
  started, the objects in flight have.
\<close>

definition fresh :: "(string \<times> vcs) list \<Rightarrow> bool" where
  "fresh its = list_all (\<lambda>(d, v). subprocess v = Unset) its"

definition wellformed :: "opts \<Rightarrow> state \<Rightarrow> bool" where
  "wellformed opt st = (1 \<le> jobs opt \<and> (jobs opt = 1 \<longrightarrow> processes st = [])
     \<and> fresh (items st)
     \<and> list_all (\<lambda>v. subprocess v \<noteq> Unset) (processes st))"

abbreviation key :: "opts \<Rightarrow> world \<Rightarrow> vcs \<Rightarrow> (exn + bool option) \<times> string list" where
  "key opt w \<equiv> (\<lambda>v. (outcome opt w v, cpv v))"

abbreviation load :: "vcs \<Rightarrow> nat" where
  "load \<equiv> (\<lambda>v. 1 + left_polls v)"

abbreviation started :: "vcs \<Rightarrow> bool" where
  "started \<equiv> (\<lambda>v. subprocess v \<noteq> Unset)"

abbreviation upd_sum :: "opts \<Rightarrow> world \<Rightarrow> vcs list \<Rightarrow> string multiset" where
  "upd_sum opt w ps \<equiv> sum_list (map (\<lambda>v. updated_by (outcome opt w v) (cpv v)) ps)"

abbreviation fail_sum :: "opts \<Rightarrow> world \<Rightarrow> vcs list \<Rightarrow> string multiset" where
  "fail_sum opt w ps \<equiv> sum_list (map (\<lambda>v. failed_by (outcome opt w v) (cpv v)) ps)"

abbreviation chk_sum :: "opts \<Rightarrow> world \<Rightarrow> vcs list \<Rightarrow> event multiset" where
  "chk_sum opt w ps \<equiv> sum_list (map (checked opt w) ps)"

text \<open>The value of a decimal digit, and the number that a string of decimal digits
  writes.\<close>

definition digit_value :: "int \<Rightarrow> int" where
  "digit_value cp = (case filter (\<lambda>z. z \<le> cp \<and> cp < z + 10) nd_zeros of
                       [] \<Rightarrow> 0 | z # _ \<Rightarrow> cp - z)"

definition decimal :: "string \<Rightarrow> int" where
  "decimal s = (case code_points s of
                  None \<Rightarrow> 0
                | Some cps \<Rightarrow> foldl (\<lambda>n c. 10 * n + digit_value c) 0 cps)"

text \<open>How often an update command was spawned in a directory, and how often revisions
  were compared there.\<close>

definition spawns_in :: "string \<Rightarrow> event list \<Rightarrow> nat" where
  "spawns_in d evs = length (filter (\<lambda>e. case e of Spawn p c \<Rightarrow> p = d | _ \<Rightarrow> False) evs)"

definition compares_in :: "string \<Rightarrow> event list \<Rightarrow> nat" where
  "compares_in d evs = length (filter (\<lambda>e. e = Compare d) evs)"

text \<open>The identifiers held by the objects of a dictionary or work list, and the identifiers
  that a state of the enumeration has recorded.\<close>

definition idents :: "(string \<times> vcs) list \<Rightarrow> string set" where
  "idents rb = (\<Union>(d, v) \<in> set rb. set (cpv v))"

definition known :: "state \<Rightarrow> string set" where
  "known st = set (erraneous st) \<union> idents (rebuilds st)"


text \<open>An object with identifiers appended to its list, and nothing else changed.\<close>

definition grown :: "vcs \<Rightarrow> vcs \<Rightarrow> bool" where
  "grown t t' = (\<exists>extra. t' = t\<lparr>cpv := cpv t @ extra\<rparr>)"

declare scheduler.simps [code]

section \<open>Concrete inputs\<close>

text \<open>Options, objects, answers of the outside world and states on which the statements
  below are instantiated.\<close>

definition ex_opts :: opts where
  "ex_opts = \<lparr>jobs = 1, network = True, local_rev = False, erraneous_merge = True,
     quickpkg = False, pretend = False, offline = True\<rparr>"

definition ex_git :: "string \<Rightarrow> string \<Rightarrow> vcs" where
  "ex_git c project = \<lparr>cls = GitSupport, cpv = [c],
     env = [(''EGIT_BRANCH'', ''master''), (''EGIT_PROJECT'', project),
            (''EGIT_STORE_DIR'', ''/d/git-src''), (''EGIT_UPDATE_CMD'', ''git fetch''),
            (''EGIT_COMMIT'', ''''), (''EGIT_DIFFSTAT_CMD'', ''''), (''EGIT_HAS_SUBMODULES'', ''''),
            (''EGIT_OPTIONS'', ''''), (''EGIT_REPO_URI'', ''git://x/'' @ project),
            (''EGIT_VERSION'', ''aaa'')],
     oldrev = Unset, subprocess = Unset\<rparr>"

definition ex_resp :: "string \<Rightarrow> responses" where
  "ex_resp d =
     (if d = ''/d/git-src/a''
      then \<lparr>chdir_ok = True, call_start = Some ''aaa'', polls = 3, status = 0, call_end = Some ''bbb''\<rparr>
      else if d = ''/d/git-src/b''
      then \<lparr>chdir_ok = True, call_start = Some ''aaa'', polls = 1, status = 1, call_end = Some ''bbb''\<rparr>
      else \<lparr>chdir_ok = True, call_start = Some ''aaa'', polls = 0, status = 0, call_end = Some ''aaa''\<rparr>)"

definition ex_w :: world where
  "ex_w = \<lparr>distdir = ''/d'', resp = ex_resp\<rparr>"

definition ex_state :: state where
  "ex_state = initial\<lparr>items := [(''/d/git-src/a'', ex_git ''cat/a-1'' ''a''),
                                (''/d/git-src/b'', ex_git ''cat/b-1'' ''b'')]\<rparr>"

definition ex_svn :: "string \<Rightarrow> vcs" where
  "ex_svn old = \<lparr>cls = SvnSupport, cpv = [''dev-libs/foo-9999''],
     env = [(''ESVN_STORE_DIR'', ''/d/svn-src''), (''ESVN_UPDATE_CMD'', ''svn up''),
            (''ESVN_WC_PATH'', ''/d/svn-src/foo''), (''ESVN_REVISION'', ''''),
            (''ESVN_OPTIONS'', ''''), (''ESVN_PASSWORD'', ''''),
            (''ESVN_REPO_URI'', ''svn://x/foo''), (''ESVN_USER'', ''''),
            (''ESVN_WC_REVISION'', old)],
     oldrev = Bound (Some old), subprocess = Bound None\<rparr>"

definition ex_svn_world :: "string \<Rightarrow> world" where
  "ex_svn_world new = \<lparr>distdir = ''/d'',
     resp = (\<lambda>d. \<lparr>chdir_ok = True, call_start = None, polls = 0, status = 0,
                   call_end = Some (''Path: .'' @ [NL] @ ''Last Changed Rev: '' @ new @ [NL])\<rparr>)\<rparr>"


definition ex_package :: "string \<Rightarrow> string \<Rightarrow> string \<Rightarrow> package" where
  "ex_package c project commit = \<lparr>ident = c, inherited = [''eutils'', ''git''],
     shell_output = (\<lambda>_. join [NUL] [''master'', project, ''/d/git-src'', ''git fetch'',
        commit, '''', '''', '''', ''git://x/'' @ project, ''aaa''])\<rparr>"

definition ex_svn_package :: "string \<Rightarrow> string \<Rightarrow> string \<Rightarrow> package" where
  "ex_svn_package c path wcrev = \<lparr>ident = c, inherited = [''subversion''],
     shell_output = (\<lambda>_. join [NUL] [''/d/svn-src'', ''svn up'', path, '''', '''', '''',
        ''svn://x/foo'', '''', wcrev])\<rparr>"



definition ex_broken :: package where
  "ex_broken = \<lparr>ident = ''cat/broken-1'', inherited = [''git''], shell_output = (\<lambda>_. '''')\<rparr>"

section \<open>Lemmas\<close>

subsection \<open>Exceptions and attributes\<close>

lemma bindE_Inr_iff: "bindE m f = Inr y \<longleftrightarrow> (\<exists>x. m = Inr x \<and> f x = Inr y)"
  by (cases m) (simp_all add: bindE_def)

lemma bindE_Inl_iff: "bindE m f = Inl e \<longleftrightarrow> m = Inl e \<or> (\<exists>x. m = Inr x \<and> f x = Inl e)"
  by (cases m) (simp_all add: bindE_def)

lemma bindE_simps [simp]: "bindE (Inl e) f = Inl e" "bindE (Inr x) f = f x"
  by (simp_all add: bindE_def)

lemma getenv_upd [simp]:
  "getenv (v\<lparr>subprocess := x\<rparr>) k = getenv v k" "getenv (v\<lparr>oldrev := y\<rparr>) k = getenv v k"
  by (simp_all add: getenv_def)

lemma getpath_upd [simp]:
  "getpath w (v\<lparr>subprocess := x\<rparr>) = getpath w v" "getpath w (v\<lparr>oldrev := y\<rparr>) = getpath w v"
  by (simp_all add: getpath_def Let_def split: vcs_class.splits cong: if_cong)

lemma getrev_upd [simp]:
  "getrev (v\<lparr>subprocess := x\<rparr>) a = getrev v a" "getrev (v\<lparr>oldrev := y\<rparr>) a = getrev v a"
  by (simp_all add: getrev_def Let_def split: vcs_class.splits cong: if_cong)

lemma str_vcs_upd [simp]:
  "str_vcs (v\<lparr>subprocess := x\<rparr>) = str_vcs v" "str_vcs (v\<lparr>oldrev := y\<rparr>) = str_vcs v"
  by (simp_all add: str_vcs_def Let_def split: vcs_class.splits cong: if_cong)

lemma diffstat_upd [simp]:
  "diffstat (v\<lparr>subprocess := x\<rparr>) = diffstat v" "diffstat (v\<lparr>oldrev := y\<rparr>) = diffstat v"
  by (simp_all add: diffstat_def Let_def split: vcs_class.splits cong: if_cong)

lemma getupdatecmd_upd [simp]:
  "getupdatecmd (v\<lparr>subprocess := x\<rparr>) = getupdatecmd v" "getupdatecmd (v\<lparr>oldrev := y\<rparr>) = getupdatecmd v"
  by (simp_all add: getupdatecmd_def Let_def split: vcs_class.splits cong: if_cong)

lemma resolve_subprocess [simp]: "resolve opt w (v\<lparr>subprocess := x\<rparr>) r = resolve opt w v r"
  by (simp add: resolve_def cong: if_cong)

lemma resolve_events_subprocess [simp]:
  "resolve_events opt w (v\<lparr>subprocess := x\<rparr>) r = resolve_events opt w v r"
  by (auto simp: resolve_events_def split: sum.splits attr.splits)

lemma outcome_polled:
  assumes "subprocess v = Bound (Some p)"
  shows "outcome opt w (v\<lparr>subprocess := Bound (Some (p\<lparr>remaining := k\<rparr>))\<rparr>) = outcome opt w v"
  using assms by (simp add: outcome_def endupdate_def)

text \<open>No exception of the model is an interrupt unless one is delivered.\<close>

lemma getenv_not_intr: "getenv v k \<noteq> Inl KeyboardInterrupt"
  by (simp add: getenv_def split: option.splits)

lemma call_not_intr: "call a \<noteq> Inl KeyboardInterrupt"
  by (simp add: call_def split: option.splits)

lemma str_vcs_not_intr: "str_vcs v \<noteq> Inl KeyboardInterrupt"
  by (auto simp: str_vcs_def bindE_Inl_iff getenv_not_intr)

lemma getpath_not_intr: "getpath w v \<noteq> Inl KeyboardInterrupt"
  by (auto simp: getpath_def bindE_Inl_iff getenv_not_intr Let_def split: vcs_class.splits if_splits)

lemma getrev_not_intr: "getrev v a \<noteq> Inl KeyboardInterrupt"
  by (auto simp: getrev_def bindE_Inl_iff getenv_not_intr call_not_intr split: vcs_class.splits)

lemma getsavedrev_not_intr: "getsavedrev v \<noteq> Inl KeyboardInterrupt"
  by (auto simp: getsavedrev_def bindE_Inl_iff getenv_not_intr split: vcs_class.splits)

lemma getupdatecmd_not_intr: "getupdatecmd v \<noteq> Inl KeyboardInterrupt"
  by (auto simp: getupdatecmd_def bindE_Inl_iff getenv_not_intr Let_def split: vcs_class.splits if_splits)

lemma diffstat_not_intr: "diffstat v \<noteq> Inl KeyboardInterrupt"
  by (auto simp: diffstat_def bindE_Inl_iff getenv_not_intr split: vcs_class.splits)

lemma revcmp_not_intr: "revcmp c a b \<noteq> Inl KeyboardInterrupt"
  by (auto simp: revcmp_def split: vcs_class.splits option.splits)

lemma resolve_not_intr: "resolve opt w v r \<noteq> Inl KeyboardInterrupt"
  by (auto simp: resolve_def bindE_Inl_iff getpath_not_intr getrev_not_intr str_vcs_not_intr
      revcmp_not_intr diffstat_not_intr split: if_splits attr.splits)

lemma startupdate_not_intr: "startupdate opt w False v \<noteq> Inl KeyboardInterrupt"
  by (auto simp: startupdate_def bindE_Inl_iff getpath_not_intr getrev_not_intr str_vcs_not_intr
      getsavedrev_not_intr getupdatecmd_not_intr Let_def split: if_splits)

lemma outcome_not_intr: "outcome opt w v \<noteq> Inl KeyboardInterrupt"
  by (cases "subprocess v"; cases "resolve opt w v 0")
     (auto simp: outcome_def endupdate_def resolve_not_intr map_sum_def split: option.splits sum.splits)

lemma endupdate_poll_cases:
  assumes "endupdate opt w False v = (v', r)"
  shows "(r = Inr None \<and> left_polls v' < left_polls v \<and> outcome opt w v' = outcome opt w v
            \<and> cpv v' = cpv v \<and> subprocess v' \<noteq> Unset)
       \<or> (r \<noteq> Inr None \<and> v' = v \<and> r = outcome opt w v)"
proof (cases "subprocess v")
  case Unset
  with assms show ?thesis by (auto simp: endupdate_def outcome_def)
next
  case (Bound sp)
  show ?thesis
  proof (cases sp)
    case None
    with Bound assms show ?thesis
      by (cases "resolve opt w v 0") (auto simp: endupdate_def outcome_def)
  next
    case (Some p)
    show ?thesis
    proof (cases "remaining p > 0")
      case True
      with Bound Some assms have v': "v' = v\<lparr>subprocess := Bound (Some (p\<lparr>remaining := remaining p - 1\<rparr>))\<rparr>"
        and r: "r = Inr None" by (auto simp: endupdate_def)
      have "outcome opt w v' = outcome opt w v"
        unfolding v' using Bound Some by (simp add: outcome_polled)
      with v' r True Bound Some show ?thesis by (simp add: left_polls_def)
    next
      case False
      with Bound Some assms show ?thesis
        by (cases "resolve opt w v (returncode p)") (auto simp: endupdate_def outcome_def)
    qed
  qed
qed

lemma endupdate_events_poll:
  assumes "endupdate opt w False v = (v', r)"
  shows "(r = Inr None \<longrightarrow> endupdate_events opt w False v = [] \<and> checked opt w v' = checked opt w v)
       \<and> (r \<noteq> Inr None \<longrightarrow> mset (endupdate_events opt w False v) = checked opt w v)"
proof (cases "subprocess v")
  case Unset
  with assms show ?thesis by (auto simp: endupdate_def endupdate_events_def checked_def)
next
  case (Bound sp)
  show ?thesis
  proof (cases sp)
    case None
    with Bound assms show ?thesis
      by (cases "resolve opt w v 0") (auto simp: endupdate_def endupdate_events_def checked_def)
  next
    case (Some p)
    show ?thesis
    proof (cases "remaining p > 0")
      case True
      with Bound Some assms have v': "v' = v\<lparr>subprocess := Bound (Some (p\<lparr>remaining := remaining p - 1\<rparr>))\<rparr>"
        and r: "r = Inr None" by (auto simp: endupdate_def)
      from Bound Some True have "endupdate_events opt w False v = []"
        by (simp add: endupdate_events_def)
      moreover from Bound Some have "checked opt w v' = checked opt w v"
        unfolding v' by (simp add: checked_def endupdate_events_def)
      ultimately show ?thesis using r by simp
    next
      case False
      with Bound Some assms show ?thesis
        by (cases "resolve opt w v (returncode p)")
           (auto simp: endupdate_def endupdate_events_def checked_def)
    qed
  qed
qed

lemma poll_trace:
  "poll opt w ps = (ps', r) \<Longrightarrow>
     map (checked opt w) ps' = map (checked opt w) ps
   \<and> mset (poll_events opt w ps)
       = (case r of
            Assigned (Some b) v \<Rightarrow> checked opt w v
          | Raised e v \<Rightarrow> checked opt w v
          | _ \<Rightarrow> {#})"
proof (induction ps arbitrary: ps' r)
  case Nil
  then show ?case by auto
next
  case (Cons p ps)
  obtain p' rp where e: "endupdate opt w False p = (p', rp)" by (cases "endupdate opt w False p")
  note c = endupdate_poll_cases[OF e] and t = endupdate_events_poll[OF e]
  show ?case
  proof (cases "rp = Inr None")
    case False
    with c have same: "p' = p" by auto
    from False t have ev: "mset (endupdate_events opt w False p) = checked opt w p" by simp
    show ?thesis
    proof (cases rp)
      case (Inl ex)
      with e have "poll opt w (p # ps) = (p' # ps, Raised ex p')" by simp
      with Cons.prems have "ps' = p' # ps" "r = Raised ex p'" by auto
      with same Inl e ev show ?thesis by simp
    next
      case (Inr b)
      with False obtain b' where b: "b = Some b'" by (cases b) auto
      with e Inr have "poll opt w (p # ps) = (p' # ps, Assigned (Some b') p')" by simp
      with Cons.prems have "ps' = p' # ps" "r = Assigned (Some b') p'" by auto
      with same Inr b e ev show ?thesis by simp
    qed
  next
    case True
    with t have ev: "endupdate_events opt w False p = []"
      and ch: "checked opt w p' = checked opt w p" by simp_all
    obtain qs rq where q: "poll opt w ps = (qs, rq)" by (cases "poll opt w ps")
    note ih = Cons.IH[OF q]
    from e True have pe: "poll_events opt w (p # ps) = poll_events opt w ps"
      using ev by simp
    show ?thesis
    proof (cases rq)
      case NotAssigned
      from e True q NotAssigned have "poll opt w (p # ps) = (p' # qs, Assigned None p')" by simp
      with Cons.prems have "ps' = p' # qs" "r = Assigned None p'" by auto
      with ih NotAssigned ch pe show ?thesis by simp
    next
      case (Assigned b v)
      with e True q have "poll opt w (p # ps) = (p' # qs, Assigned b v)" by simp
      with Cons.prems have r: "ps' = p' # qs" "r = Assigned b v" by auto
      with ih Assigned ch pe show ?thesis by simp
    next
      case (Raised ex v)
      with e True q have "poll opt w (p # ps) = (p' # qs, Raised ex v)" by simp
      with Cons.prems have r: "ps' = p' # qs" "r = Raised ex v" by auto
      with ih Raised ch pe show ?thesis by simp
    qed
  qed
qed

lemma poll_props:
  "poll opt w ps = (ps', r) \<Longrightarrow>
     map (key opt w) ps' = map (key opt w) ps
   \<and> (list_all started ps \<longrightarrow> list_all started ps')
   \<and> (case r of
         NotAssigned \<Rightarrow> ps = []
       | Assigned None v \<Rightarrow> sum_list (map load ps') < sum_list (map load ps)
       | Assigned (Some b) v \<Rightarrow> v \<in> set ps' \<and> outcome opt w v = Inr (Some b)
            \<and> sum_list (map load ps') \<le> sum_list (map load ps)
       | Raised e v \<Rightarrow> v \<in> set ps' \<and> outcome opt w v = Inl e
            \<and> sum_list (map load ps') \<le> sum_list (map load ps))"
proof (induction ps arbitrary: ps' r)
  case Nil
  then show ?case by simp
next
  case (Cons p ps)
  obtain p' rp where e: "endupdate opt w False p = (p', rp)" by (cases "endupdate opt w False p")
  note c = endupdate_poll_cases[OF e]
  show ?case
  proof (cases "rp = Inr None")
    case False
    with c have same: "p' = p" "rp = outcome opt w p" by auto
    show ?thesis
    proof (cases rp)
      case (Inl ex)
      with e have "poll opt w (p # ps) = (p' # ps, Raised ex p')" by simp
      with Cons.prems have "ps' = p' # ps" "r = Raised ex p'" by auto
      with same Inl show ?thesis by auto
    next
      case (Inr b)
      with False obtain b' where b: "b = Some b'" by (cases b) auto
      with e Inr have "poll opt w (p # ps) = (p' # ps, Assigned (Some b') p')" by simp
      with Cons.prems have "ps' = p' # ps" "r = Assigned (Some b') p'" by auto
      with same Inr b show ?thesis by auto
    qed
  next
    case True
    with c have run: "left_polls p' < left_polls p" "outcome opt w p' = outcome opt w p"
      "cpv p' = cpv p" "subprocess p' \<noteq> Unset" by auto
    obtain qs rq where q: "poll opt w ps = (qs, rq)" by (cases "poll opt w ps")
    note ih = Cons.IH[OF q]
    show ?thesis
    proof (cases rq)
      case NotAssigned
      with ih have "ps = []" by simp
      with q have "qs = []" by simp
      from e True q NotAssigned have "poll opt w (p # ps) = (p' # qs, Assigned None p')" by simp
      with Cons.prems have "ps' = p' # qs" "r = Assigned None p'" by auto
      with run \<open>ps = []\<close> \<open>qs = []\<close> show ?thesis by auto
    next
      case (Assigned b v)
      with e True q have "poll opt w (p # ps) = (p' # qs, Assigned b v)" by simp
      with Cons.prems have r: "ps' = p' # qs" "r = Assigned b v" by auto
      show ?thesis
      proof (cases b)
        case None
        with ih Assigned r run show ?thesis by auto
      next
        case (Some b')
        with ih Assigned r run show ?thesis by auto
      qed
    next
      case (Raised ex v)
      with e True q have "poll opt w (p # ps) = (p' # qs, Raised ex v)" by simp
      with Cons.prems have r: "ps' = p' # qs" "r = Raised ex v" by auto
      with ih Raised run show ?thesis by auto
    qed
  qed
qed

lemma sum_key:
  assumes "map (key opt w) ps' = map (key opt w) ps"
  shows "sum_list (map (\<lambda>v. f (outcome opt w v) (cpv v)) ps')
       = sum_list (map (\<lambda>v. f (outcome opt w v) (cpv v)) ps)"
proof -
  have "map (\<lambda>v. f (outcome opt w v) (cpv v)) qs = map (\<lambda>(r, c). f r c) (map (key opt w) qs)" for qs
    by simp
  with assms show ?thesis by metis
qed


lemma poll_and_collect_running:
  assumes ne: "processes st \<noteq> []" and j: "jobs opt \<noteq> 1"
    and started: "list_all started (processes st)"
  shows "\<exists>st'. poll_and_collect opt w st = Continue st' \<and> items st' = items st
     \<and> sum_list (map load (processes st')) < sum_list (map load (processes st))
     \<and> mset (packages st') + upd_sum opt w (processes st')
         = mset (packages st) + upd_sum opt w (processes st)
     \<and> mset (erraneous st') + fail_sum opt w (processes st')
         = mset (erraneous st) + fail_sum opt w (processes st)
     \<and> list_all started (processes st')
     \<and> mset (events st') + chk_sum opt w (processes st')
         = mset (events st) + chk_sum opt w (processes st)"
proof -
  obtain ps r where p: "poll opt w (processes st) = (ps, r)" by (cases "poll opt w (processes st)")
  note pp = poll_props[OF p] and pt = poll_trace[OF p]
  from pt have c: "chk_sum opt w ps = chk_sum opt w (processes st)" by simp
  from pp have k: "map (key opt w) ps = map (key opt w) (processes st)" by simp
  note u = sum_key[OF k, of updated_by] and f = sum_key[OF k, of failed_by]
  from pp started have s: "list_all started ps" by simp
  show ?thesis
  proof (cases r)
    case NotAssigned
    with pp ne show ?thesis by simp
  next
    case (Assigned b v)
    show ?thesis
    proof (cases b)
      case None
      with Assigned pp have less: "sum_list (map load ps) < sum_list (map load (processes st))" by simp
      from pt Assigned None have ev: "mset (poll_events opt w (processes st)) = {#}" by simp
      from p Assigned None have "poll_and_collect opt w st
          = Continue (st\<lparr>events := events st @ poll_events opt w (processes st),
               processes := ps, ret := Bound None, cur := Bound v\<rparr>)"
        by (simp add: poll_and_collect_def Let_def)
      with less u f s c ev show ?thesis by simp
    next
      case (Some b')
      with Assigned pp have v: "v \<in> set ps" "outcome opt w v = Inr (Some b')"
        and le: "sum_list (map load ps) \<le> sum_list (map load (processes st))" by simp_all
      from v(1) have l: "sum_list (map load ps) = load v + sum_list (map load (remove1 v ps))"
        by (rule sum_list_map_remove1)
      from v(1) have u1: "upd_sum opt w ps = updated_by (outcome opt w v) (cpv v) + upd_sum opt w (remove1 v ps)"
        by (rule sum_list_map_remove1)
      from v(1) have f1: "fail_sum opt w ps = failed_by (outcome opt w v) (cpv v) + fail_sum opt w (remove1 v ps)"
        by (rule sum_list_map_remove1)
      from s have s': "list_all started (remove1 v ps)"
        by (auto simp: list_all_iff dest: notin_set_remove1)
      from v(1) have c1: "chk_sum opt w ps = checked opt w v + chk_sum opt w (remove1 v ps)"
        by (rule sum_list_map_remove1)
      from pt Assigned Some have ev: "mset (poll_events opt w (processes st)) = checked opt w v"
        by simp
      from p Assigned Some have "poll_and_collect opt w st
          = Continue ((st\<lparr>events := events st @ poll_events opt w (processes st),
                 processes := remove1 v ps, ret := Bound (Some b'), cur := Bound v\<rparr>)
               \<lparr>packages := packages st @ (if b' then cpv v else [])\<rparr>)"
        by (cases b') (simp_all add: poll_and_collect_def Let_def)
      with l le u u1 f f1 v(2) s' c c1 ev show ?thesis
        by (auto simp: updated_by_def failed_by_def)
    qed
  next
    case (Raised e v)
    with pp have v: "v \<in> set ps" "outcome opt w v = Inl e"
      and le: "sum_list (map load ps) \<le> sum_list (map load (processes st))" by simp_all
    from v(2) have ne: "e \<noteq> KeyboardInterrupt" using outcome_not_intr[of opt w v] by auto
    from v(1) have l: "sum_list (map load ps) = load v + sum_list (map load (remove1 v ps))"
      by (rule sum_list_map_remove1)
    from v(1) have u1: "upd_sum opt w ps = updated_by (outcome opt w v) (cpv v) + upd_sum opt w (remove1 v ps)"
      by (rule sum_list_map_remove1)
    from v(1) have f1: "fail_sum opt w ps = failed_by (outcome opt w v) (cpv v) + fail_sum opt w (remove1 v ps)"
      by (rule sum_list_map_remove1)
    from s have s': "list_all started (remove1 v ps)"
      by (auto simp: list_all_iff dest: notin_set_remove1)
    from v(1) have c1: "chk_sum opt w ps = checked opt w v + chk_sum opt w (remove1 v ps)"
      by (rule sum_list_map_remove1)
    from pt Raised have ev: "mset (poll_events opt w (processes st)) = checked opt w v"
      by simp
    from p Raised ne j v(1) have "poll_and_collect opt w st
        = Continue (st\<lparr>events := events st @ poll_events opt w (processes st),
              processes := remove1 v ps, cur := Bound v,
              errlog := errlog st @ [ErrUpdating (cpv v) e], erraneous := erraneous st @ cpv v\<rparr>)"
      by (simp add: poll_and_collect_def Let_def handle_def except_Exception_def)
    with l le u u1 f f1 v(2) s' c c1 ev show ?thesis
      by (auto simp: updated_by_def failed_by_def)
  qed
qed

lemma poll_and_collect_sequential:
  assumes "processes st = []" and "ret st = Bound r" and "cur st = Bound v"
  shows "\<exists>st'. poll_and_collect opt w st = Continue st' \<and> items st' = items st
     \<and> processes st' = [] \<and> erraneous st' = erraneous st \<and> events st' = events st
     \<and> packages st' = packages st @ (if r = Some True then cpv v else [])"
proof (cases r)
  case None
  with assms show ?thesis by (simp add: poll_and_collect_def Let_def)
next
  case (Some b)
  with assms show ?thesis by (cases b) (simp_all add: poll_and_collect_def Let_def)
qed

lemma startupdate_Inr:
  assumes "startupdate opt w False v = Inr v'"
  shows "cpv v' = cpv v \<and> cls v' = cls v \<and> env v' = env v \<and> subprocess v' \<noteq> Unset
       \<and> (\<exists>s. str_vcs v = Inr s)"
  using assms
  by (auto simp: startupdate_def bindE_Inr_iff Let_def split: if_splits)

lemma body_step:
  assumes wf: "wellformed opt st"
  shows "(body opt w None st = Break st \<and> items st = [] \<and> processes st = [])
       \<or> (\<exists>st'. body opt w None st = Continue st' \<and> work opt w st' < work opt w st
             \<and> updated_total opt w st' = updated_total opt w st
             \<and> failed_total opt w st' = failed_total opt w st
             \<and> trace_total opt w st' = trace_total opt w st
             \<and> wellformed opt st')"
proof (cases "int (length (processes st)) < jobs opt \<and> length (items st) > 0")
  case True
  then obtain d v rest where it: "items st = (d, v) # rest" by (cases "items st") auto
  from wf it have fresh: "subprocess v = Unset" and frest: "fresh rest"
    and st: "list_all started (processes st)" and j1: "1 \<le> jobs opt"
    and seq: "jobs opt = 1 \<longrightarrow> processes st = []"
    by (auto simp: wellformed_def fresh_def)
  from fresh st have notin: "v \<notin> set (processes st)" by (auto simp: list_all_iff)
  define st1 where "st1 = st\<lparr>items := rest, cur := Bound v\<rparr>"
  show ?thesis
  proof (cases "startupdate opt w False v")
    case (Inl e)
    then have ne: "e \<noteq> KeyboardInterrupt" using startupdate_not_intr[of opt w v] by auto
    from Inl have to: "task_outcome opt w v = Inl e" and sp: "start_polls opt w v = 0"
      and sb: "traced_by opt w v = {#}"
      by (simp_all add: task_outcome_def start_polls_def traced_by_def)
    from True it Inl ne notin have "body opt w None st
        = Continue (st\<lparr>items := rest, cur := Bound v, errlog := errlog st @ [ErrUpdating (cpv v) e],
             erraneous := erraneous st @ cpv v\<rparr>)"
      by (simp add: body_def leave_inner_try_def handle_def except_Exception_def)
    with it to sp sb frest st j1 seq show ?thesis
      by (simp add: work_def updated_total_def failed_total_def trace_total_def wellformed_def
          updated_by_def failed_by_def)
  next
    case (Inr v')
    note sv = startupdate_Inr[OF Inr]
    from Inr have to: "task_outcome opt w v = outcome opt w v'" and sp: "start_polls opt w v = left_polls v'"
      and sb: "traced_by opt w v = mset (spawned v') + checked opt w v'"
      by (simp_all add: task_outcome_def start_polls_def traced_by_def)
    define st2 where "st2 = st\<lparr>items := rest, cur := Bound v', events := events st @ spawned v'\<rparr>"
    show ?thesis
    proof (cases "jobs opt = 1")
      case j: True
      with seq have pe: "processes st = []" by simp
      show ?thesis
      proof (cases "outcome opt w v'")
        case (Inl e)
        then have ne: "e \<noteq> KeyboardInterrupt" using outcome_not_intr[of opt w v'] by auto
        from True it Inr j Inl ne have "body opt w None st
            = Continue (st\<lparr>items := rest, cur := Bound v',
                 events := events st @ spawned v' @ endupdate_events opt w True v',
                 errlog := errlog st @ [ErrUpdating (cpv v') e], erraneous := erraneous st @ cpv v'\<rparr>)"
          by (simp add: body_def leave_inner_try_def handle_def except_Exception_def outcome_def)
        with it to sp sb frest j pe sv Inl show ?thesis
          by (simp add: work_def updated_total_def failed_total_def trace_total_def wellformed_def
              updated_by_def failed_by_def checked_def)
      next
        case (Inr r)
        define st4 where "st4 = st2\<lparr>events := events st2 @ endupdate_events opt w True v',
          ret := Bound r\<rparr>"
        from True it \<open>startupdate opt w False v = Inr v'\<close> j Inr
        have b: "body opt w None st = poll_and_collect opt w st4"
          by (simp add: body_def outcome_def st2_def st4_def)
        have "processes st4 = []" "ret st4 = Bound r" "cur st4 = Bound v'"
          using pe by (simp_all add: st2_def st4_def)
        from poll_and_collect_sequential[OF this, of opt w] obtain st' where
          s': "poll_and_collect opt w st4 = Continue st'"
            "items st' = rest" "processes st' = []" "erraneous st' = erraneous st"
            "events st' = events st @ spawned v' @ endupdate_events opt w True v'"
            "packages st' = packages st @ (if r = Some True then cpv v' else [])"
          by (auto simp: st2_def st4_def)
        with b it to sp sb frest j j1 pe sv Inr show ?thesis
          by (simp add: work_def updated_total_def failed_total_def trace_total_def wellformed_def
              updated_by_def failed_by_def checked_def)
      qed
    next
      case j: False
      define st3 where "st3 = st2\<lparr>processes := processes st2 @ [v']\<rparr>"
      from True it Inr j have b: "body opt w None st = poll_and_collect opt w st3"
        by (simp add: body_def st2_def st3_def)
      have ne: "processes st3 \<noteq> []" by (simp add: st3_def)
      from st sv have s3: "list_all started (processes st3)" by (simp add: st3_def st2_def)
      from poll_and_collect_running[OF ne j s3, of w] obtain st' where
        s': "poll_and_collect opt w st3 = Continue st'" "items st' = items st3"
          "sum_list (map load (processes st')) < sum_list (map load (processes st3))"
          "mset (packages st') + upd_sum opt w (processes st') = mset (packages st3) + upd_sum opt w (processes st3)"
          "mset (erraneous st') + fail_sum opt w (processes st') = mset (erraneous st3) + fail_sum opt w (processes st3)"
          "list_all started (processes st')"
          "mset (events st') + chk_sum opt w (processes st')
             = mset (events st3) + chk_sum opt w (processes st3)"
        by blast
      have w: "work opt w st' < work opt w st"
        using s'(2,3) it sp by (simp add: work_def st3_def st2_def)
      have u: "updated_total opt w st' = updated_total opt w st"
        using s'(2,4) it to sv by (simp add: updated_total_def st3_def st2_def)
      have f: "failed_total opt w st' = failed_total opt w st"
        using s'(2,5) it to sv by (simp add: failed_total_def st3_def st2_def)
      have e: "trace_total opt w st' = trace_total opt w st"
        using s'(2,7) it sb by (simp add: trace_total_def st3_def st2_def)
      have wf': "wellformed opt st'"
        using s'(2,6) frest j j1 by (simp add: wellformed_def st3_def st2_def)
      from b s'(1) w u f e wf' show ?thesis by simp
    qed
  qed
next
  case False
  show ?thesis
  proof (cases "processes st = []")
    case True
    with False wf have "items st = []" by (auto simp: wellformed_def)
    with True False show ?thesis by (simp add: body_def)
  next
    case ne: False
    with wf have j: "jobs opt \<noteq> 1" and s: "list_all started (processes st)"
      and fr: "fresh (items st)" and j1: "1 \<le> jobs opt"
      by (auto simp: wellformed_def)
    from False ne have b: "body opt w None st = poll_and_collect opt w st"
      by (auto simp: body_def)
    from poll_and_collect_running[OF ne j s, of w] obtain st' where
      s': "poll_and_collect opt w st = Continue st'" "items st' = items st"
        "sum_list (map load (processes st')) < sum_list (map load (processes st))"
        "mset (packages st') + upd_sum opt w (processes st') = mset (packages st) + upd_sum opt w (processes st)"
        "mset (erraneous st') + fail_sum opt w (processes st') = mset (erraneous st) + fail_sum opt w (processes st)"
        "list_all started (processes st')"
        "mset (events st') + chk_sum opt w (processes st')
           = mset (events st) + chk_sum opt w (processes st)"
      by blast
    have "work opt w st' < work opt w st" using s'(2,3) by (simp add: work_def)
    moreover have "updated_total opt w st' = updated_total opt w st"
      using s'(2,4) by (simp add: updated_total_def)
    moreover have "failed_total opt w st' = failed_total opt w st"
      using s'(2,5) by (simp add: failed_total_def)
    moreover have "trace_total opt w st' = trace_total opt w st"
      using s'(2,7) by (simp add: trace_total_def)
    moreover have "wellformed opt st'" using s'(2,6) fr j j1 by (simp add: wellformed_def)
    ultimately show ?thesis using b s'(1) by simp
  qed
qed

lemma scheduler_result:
  assumes "wellformed opt st"
  shows "\<exists>st'. scheduler opt w None n st = Some (Inr st')
     \<and> mset (packages st') = updated_total opt w st
     \<and> mset (erraneous st') = failed_total opt w st
     \<and> mset (events st') = trace_total opt w st
     \<and> items st' = [] \<and> processes st' = []"
  using assms
proof (induction "work opt w st" arbitrary: st n rule: less_induct)
  case less
  from body_step[OF less.prems, of w] show ?case
  proof
    assume b: "body opt w None st = Break st \<and> items st = [] \<and> processes st = []"
    then have "scheduler opt w None n st = Some (Inr st)"
      by (subst scheduler.simps) simp
    with b show ?thesis by (simp add: updated_total_def failed_total_def trace_total_def)
  next
    assume "\<exists>st'. body opt w None st = Continue st' \<and> work opt w st' < work opt w st
             \<and> updated_total opt w st' = updated_total opt w st
             \<and> failed_total opt w st' = failed_total opt w st
             \<and> trace_total opt w st' = trace_total opt w st
             \<and> wellformed opt st'"
    then obtain st1 where b: "body opt w None st = Continue st1" and w: "work opt w st1 < work opt w st"
      and u: "updated_total opt w st1 = updated_total opt w st"
      and f: "failed_total opt w st1 = failed_total opt w st"
      and e: "trace_total opt w st1 = trace_total opt w st" and wf: "wellformed opt st1" by blast
    from less.hyps[OF w wf, of "Suc n"] obtain st' where
      r: "scheduler opt w None (Suc n) st1 = Some (Inr st')" "mset (packages st') = updated_total opt w st1"
        "mset (erraneous st') = failed_total opt w st1" "mset (events st') = trace_total opt w st1"
        "items st' = []" "processes st' = []" by blast
    from b have "scheduler opt w None n st = scheduler opt w None (Suc n) st1"
      by (subst scheduler.simps) simp
    with r u f e show ?thesis by simp
  qed
qed


subsection \<open>The number of jobs\<close>

lemma startupdate_jobs: "startupdate (opt\<lparr>jobs := N\<rparr>) w s v = startupdate opt w s v"
  by (simp add: startupdate_def Let_def cong: if_cong)

lemma resolve_jobs:
  assumes "str_vcs v = Inr s"
  shows "resolve (opt\<lparr>jobs := N\<rparr>) w v r = resolve opt w v r"
  using assms by (simp add: resolve_def cong: if_cong)

lemma outcome_jobs:
  assumes "str_vcs v = Inr s"
  shows "outcome (opt\<lparr>jobs := N\<rparr>) w v = outcome opt w v"
  using resolve_jobs[OF assms] by (simp add: outcome_def endupdate_def split: attr.splits option.splits)

lemma task_outcome_jobs: "task_outcome (opt\<lparr>jobs := N\<rparr>) w v = task_outcome opt w v"
proof (cases "startupdate opt w False v")
  case (Inl e)
  then show ?thesis by (simp add: task_outcome_def startupdate_jobs)
next
  case (Inr v')
  from startupdate_Inr[OF Inr] obtain s where "str_vcs v = Inr s" and "env v' = env v" "cls v' = cls v"
    by blast
  then have "str_vcs v' = Inr s" by (simp add: str_vcs_def getenv_def)
  from outcome_jobs[OF this] Inr show ?thesis by (simp add: task_outcome_def startupdate_jobs)
qed

lemma totals_jobs:
  assumes "processes st = []"
  shows "updated_total (opt\<lparr>jobs := N\<rparr>) w st = updated_total opt w st"
    and "failed_total (opt\<lparr>jobs := N\<rparr>) w st = failed_total opt w st"
  using assms by (simp_all add: updated_total_def failed_total_def task_outcome_jobs)

lemmas vcs_defs = str_vcs_def getenv_def getpath_def getsavedrev_def truthy_def getupdatecmd_def
   getrev_def call_def revre_search_def revre_line_def digits_def code_points_def decimal_digit_def nd_zeros_def NL_def revcmp_def diffstat_def

lemma ex_state_ok: "processes ex_state = []" "fresh (items ex_state)"
  by (simp_all add: ex_state_def initial_def fresh_def ex_git_def)

lemma ex_start_b:
  "startupdate ex_opts ex_w False (ex_git ''cat/b-1'' ''b'')
     = Inr ((ex_git ''cat/b-1'' ''b'')\<lparr>oldrev := Bound (Some ''aaa''),
          subprocess := Bound (Some \<lparr>cwd = ''/d/git-src/b'',
             cmdline = ''git fetch  origin master:master'', remaining = 1, returncode = 1\<rparr>)\<rparr>)"
  by (simp add: startupdate_def ex_opts_def ex_w_def ex_git_def ex_resp_def vcs_defs)

lemma nonzero_exit_raises:
  assumes "subprocess v = Bound (Some p)" and "returncode p \<noteq> 0"
  shows "outcome opt w v = Inl PyException"
  using assms by (simp add: outcome_def endupdate_def resolve_def)

subsection \<open>Resolving against the new revision\<close>

lemma resolve_reached:
  assumes "getpath w self = Inr path" and "chdir_ok (resp w path)"
    and "getrev self (call_end (resp w path)) = Inr newr"
    and "jobs opt > 1 \<longrightarrow> (\<exists>s. str_vcs self = Inr s)"
    and "oldrev self = Bound oldr"
  shows "resolve opt w self 0 =
           bindE (revcmp (cls self) oldr newr) (\<lambda>same.
             if same then Inr False else bindE (diffstat self) (\<lambda>_. Inr True))"
  using assms by (auto simp: resolve_def)

lemma revre_search_digits:
  assumes "revre_search s = Some r"
  shows "digits r"
proof -
  from assms obtain l ls where f: "filter revre_line (split_on NL s) = l # ls" and r: "r = drop 18 l"
    by (auto simp: revre_search_def split: list.splits)
  from f have "l \<in> set (filter revre_line (split_on NL s))" by simp
  then have "revre_line l" by simp
  with r show ?thesis by (simp add: revre_line_def)
qed

lemma ex_svn_facts:
  "getpath (ex_svn_world new) (ex_svn old) = Inr ''/d/svn-src/foo''"
  "chdir_ok (resp (ex_svn_world new) p)"
  "jobs ex_opts > 1 \<longrightarrow> (\<exists>s. str_vcs (ex_svn old) = Inr s)"
  "oldrev (ex_svn old) = Bound (Some old)"
  "diffstat (ex_svn old) = Inr ()"
  "cls (ex_svn old) = SvnSupport"
  by (simp_all add: ex_svn_def ex_svn_world_def ex_opts_def vcs_defs)

lemma ex_svn_getrev:
  "getrev (ex_svn old) (call_end (resp (ex_svn_world ''5'') p)) = Inr (Some ''5'')"
  "getrev (ex_svn old) (call_end (resp (ex_svn_world ''3'') p)) = Inr (Some ''3'')"
  "getrev (ex_svn old) (call_end (resp (ex_svn_world ''10'') p)) = Inr (Some ''10'')"
  "getrev (ex_svn old) (call_end (resp (ex_svn_world ''9'') p)) = Inr (Some ''9'')"
  "getrev (ex_svn old) (call_end (resp (ex_svn_world [CHR 0xD9, CHR 0xA3]) p))
     = Inr (Some [CHR 0xD9, CHR 0xA3])"
  by (simp_all add: ex_svn_def ex_svn_world_def vcs_defs)

subsection \<open>What \<^verbatim>\<open>startupdate\<close> returns\<close>



lemma startupdate_Inr_cases:
  assumes "startupdate opt w False self = Inr v"
  obtains path old where "getpath w self = Inr path"
    and "if local_rev opt then getrev self (call_start (resp w path)) = Inr old
         else \<exists>saved. getsavedrev self = Inr saved
                \<and> (if truthy saved then old = saved
                   else getrev self (call_start (resp w path)) = Inr old)"
    and "if network opt
         then \<exists>cmd. v = self\<lparr>oldrev := Bound old, subprocess := Bound (Some \<lparr>cwd = path,
                  cmdline = cmd, remaining = polls (resp w path), returncode = status (resp w path)\<rparr>)\<rparr>
         else v = self\<lparr>oldrev := Bound old, subprocess := Bound None\<rparr>"
proof -
  from assms obtain path where p: "getpath w self = Inr path" and c: "chdir_ok (resp w path)"
    and rest: "bindE (if local_rev opt then getrev self (call_start (resp w path))
              else bindE (getsavedrev self) (\<lambda>saved.
                if truthy saved then Inr saved
                else getrev self (call_start (resp w path)))) (\<lambda>old.
       let self1 = self\<lparr>oldrev := Bound old\<rparr> in
       if network opt then
         bindE (getupdatecmd self1) (\<lambda>cmd.
         Inr (self1\<lparr>subprocess := Bound (Some \<lparr>cwd = path, cmdline = cmd,
                remaining = polls (resp w path), returncode = status (resp w path)\<rparr>)\<rparr>))
       else Inr (self1\<lparr>subprocess := Bound None\<rparr>)) = Inr v"
    by (auto simp: startupdate_def bindE_Inr_iff split: if_splits)
  from rest obtain old where
    o: "(if local_rev opt then getrev self (call_start (resp w path))
              else bindE (getsavedrev self) (\<lambda>saved.
                if truthy saved then Inr saved
                else getrev self (call_start (resp w path)))) = Inr old"
    and n: "(if network opt then
         bindE (getupdatecmd self) (\<lambda>cmd.
         Inr (self\<lparr>oldrev := Bound old, subprocess := Bound (Some \<lparr>cwd = path, cmdline = cmd,
                remaining = polls (resp w path), returncode = status (resp w path)\<rparr>)\<rparr>))
       else Inr (self\<lparr>oldrev := Bound old, subprocess := Bound None\<rparr>)) = Inr v"
    by (auto simp: bindE_Inr_iff Let_def cong: if_cong)
  from o have 1: "if local_rev opt then getrev self (call_start (resp w path)) = Inr old
         else \<exists>saved. getsavedrev self = Inr saved
                \<and> (if truthy saved then old = saved
                   else getrev self (call_start (resp w path)) = Inr old)"
    by (auto simp: bindE_Inr_iff split: if_splits)
  from n have 2: "if network opt
         then \<exists>cmd. v = self\<lparr>oldrev := Bound old, subprocess := Bound (Some \<lparr>cwd = path,
                  cmdline = cmd, remaining = polls (resp w path), returncode = status (resp w path)\<rparr>)\<rparr>
         else v = self\<lparr>oldrev := Bound old, subprocess := Bound None\<rparr>"
    by (auto simp: bindE_Inr_iff split: if_splits)
  from p 1 2 that show ?thesis by blast
qed

subsection \<open>The enumeration\<close>

lemma VCSSupport_init_Inr:
  assumes "VCSSupport_init c i out = Inr v"
  shows "cpv v = [i] \<and> cls v = c \<and> subprocess v = Unset \<and> oldrev v = Unset"
  using assms by (auto simp: VCSSupport_init_def Let_def split: if_splits)

lemma vcs_init_Inr:
  assumes "vcs_init c i out = Inr v"
  shows "cpv v = [i] \<and> cls v = c \<and> subprocess v = Unset \<and> oldrev v = Unset"
proof (cases c)
  case GitSupport
  with assms show ?thesis
    by (auto simp: bindE_Inr_iff split: if_splits dest: VCSSupport_init_Inr)
next
  case HgSupport
  with assms show ?thesis
    by (auto simp: bindE_Inr_iff split: if_splits dest: VCSSupport_init_Inr)
next
  case SvnSupport
  with assms show ?thesis
    by (auto simp: bindE_Inr_iff split: if_splits dest: VCSSupport_init_Inr)
qed

lemma set_update_subset: "set (AList.update k v al) \<subseteq> insert (k, v) (set al)"
  by (induction al) auto

lemma update_absent: "map_of al k = None \<Longrightarrow> AList.update k v al = al @ [(k, v)]"
  by (induction al) (auto split: if_splits)

lemma idents_update: "idents (AList.update k v al) \<subseteq> set (cpv v) \<union> idents al"
  using set_update_subset[of k v al] by (auto simp: idents_def)

lemma fresh_update: "fresh al \<Longrightarrow> subprocess v = Unset \<Longrightarrow> fresh (AList.update k v al)"
  using set_update_subset[of k v al] by (auto simp: fresh_def list_all_iff)

lemma append_vcs_Inr:
  assumes "append_vcs t v = Inr m"
  shows "\<exists>c. cpv v = c # tl (cpv v) \<and> m = t\<lparr>cpv := cpv t @ [c]\<rparr> \<and> cls v = cls t"
  using assms by (auto simp: append_vcs_def split: if_splits list.splits)

lemma add_vcs_cases:
  assumes "add_vcs opt w p c rb = Inr rb'"
  shows "rb' = rb
       \<or> (\<exists>dir v. cpv v = [ident p] \<and> subprocess v = Unset \<and> map_of rb dir = None
              \<and> rb' = AList.update dir v rb \<and> getpath w v = Inr dir \<and> cls v = c
              \<and> (\<not> network opt \<longrightarrow> (\<exists>s. getsavedrev v = Inr s \<and> truthy s)))
       \<or> (\<exists>dir t. map_of rb dir = Some t
              \<and> rb' = AList.update dir (t\<lparr>cpv := cpv t @ [ident p]\<rparr>) rb)"
proof -
  from assms obtain v where v: "vcs_init c (ident p) (shell_output p c) = Inr v"
    and 1: "bindE (if network opt then Inr True
            else bindE (getsavedrev v) (\<lambda>saved. Inr (truthy saved))) (\<lambda>wanted.
     if wanted then
       bindE (getpath w v) (\<lambda>dir.
       case map_of rb dir of
         None \<Rightarrow> Inr (AList.update dir v rb)
       | Some existing \<Rightarrow>
           bindE (append_vcs existing v) (\<lambda>merged. Inr (AList.update dir merged rb)))
     else Inr rb) = Inr rb'"
    unfolding add_vcs_def bindE_Inr_iff by blast
  from 1 obtain wanted where
    w0: "(if network opt then Inr True
            else bindE (getsavedrev v) (\<lambda>saved. Inr (truthy saved))) = Inr wanted"
    and 2: "(if wanted then
       bindE (getpath w v) (\<lambda>dir.
       case map_of rb dir of
         None \<Rightarrow> Inr (AList.update dir v rb)
       | Some existing \<Rightarrow>
           bindE (append_vcs existing v) (\<lambda>merged. Inr (AList.update dir merged rb)))
     else Inr rb) = Inr rb'"
    unfolding bindE_Inr_iff by blast
  from w0 have sv: "wanted \<longrightarrow> \<not> network opt \<longrightarrow> (\<exists>s. getsavedrev v = Inr s \<and> truthy s)"
    by (auto simp: bindE_Inr_iff split: if_splits)
  have r: "rb' = rb \<or> (\<exists>dir. map_of rb dir = None \<and> rb' = AList.update dir v rb
             \<and> getpath w v = Inr dir \<and> wanted)
          \<or> (\<exists>dir t m. map_of rb dir = Some t \<and> append_vcs t v = Inr m \<and> rb' = AList.update dir m rb)"
  proof (cases wanted)
    case False
    with 2 show ?thesis by simp
  next
    case True
    with 2 obtain dir where g: "getpath w v = Inr dir" and 3: "(case map_of rb dir of
         None \<Rightarrow> Inr (AList.update dir v rb)
       | Some existing \<Rightarrow>
           bindE (append_vcs existing v) (\<lambda>merged. Inr (AList.update dir merged rb))) = Inr rb'"
      by (simp only: if_True bindE_Inr_iff) blast
    show ?thesis
    proof (cases "map_of rb dir")
      case None
      with 3 g True show ?thesis by auto
    next
      case (Some t)
      with 3 have "bindE (append_vcs t v) (\<lambda>merged. Inr (AList.update dir merged rb)) = Inr rb'"
        by simp
      then obtain m where "append_vcs t v = Inr m" "rb' = AList.update dir m rb"
        unfolding bindE_Inr_iff by auto
      with Some show ?thesis by blast
    qed
  qed
  note vi = vcs_init_Inr[OF v]
  from r show ?thesis
  proof (elim disjE exE conjE)
    assume "rb' = rb" then show ?thesis by simp
  next
    fix dir assume "map_of rb dir = None" "rb' = AList.update dir v rb"
      "getpath w v = Inr dir" wanted
    with vi sv show ?thesis by blast
  next
    fix dir t m assume t: "map_of rb dir = Some t" and a: "append_vcs t v = Inr m"
      and rb': "rb' = AList.update dir m rb"
    from append_vcs_Inr[OF a] vi have "m = t\<lparr>cpv := cpv t @ [ident p]\<rparr>" by auto
    with t rb' show ?thesis by blast
  qed
qed

lemma add_vcs_Inr:
  assumes "add_vcs opt w p c rb = Inr rb'"
  shows "idents rb' \<subseteq> insert (ident p) (idents rb) \<and> (fresh rb \<longrightarrow> fresh rb')"
  using add_vcs_cases[OF assms]
proof (elim disjE exE conjE)
  assume "rb' = rb" then show ?thesis by auto
next
  fix dir v assume "cpv v = [ident p]" "subprocess v = Unset" "rb' = AList.update dir v rb"
  with idents_update[of dir v rb] fresh_update[of rb v dir] show ?thesis by auto
next
  fix dir t assume t: "map_of rb dir = Some t"
    and rb': "rb' = AList.update dir (t\<lparr>cpv := cpv t @ [ident p]\<rparr>) rb"
  define m where "m = t\<lparr>cpv := cpv t @ [ident p]\<rparr>"
  from t have tin: "(dir, t) \<in> set rb" by (rule map_of_SomeD)
  then have "set (cpv t) \<subseteq> idents rb" by (auto simp: idents_def)
  then have "set (cpv m) \<subseteq> insert (ident p) (idents rb)" by (auto simp: m_def)
  with idents_update[of dir m rb] rb' have 1: "idents rb' \<subseteq> insert (ident p) (idents rb)"
    by (auto simp: m_def)
  have "fresh rb \<longrightarrow> subprocess m = Unset" using tin by (auto simp: fresh_def list_all_iff m_def)
  with fresh_update[of rb m dir] rb' have "fresh rb \<longrightarrow> fresh rb'" by (auto simp: m_def)
  with 1 show ?thesis by simp
qed

lemma scan_classes_props:
  "scan_classes opt w p cs rb = (rb', r)
     \<Longrightarrow> idents rb' \<subseteq> insert (ident p) (idents rb) \<and> (fresh rb \<longrightarrow> fresh rb')"
proof (induction cs arbitrary: rb)
  case Nil
  then show ?case by auto
next
  case (Cons c cs)
  show ?case
  proof (cases "match c (inherited p)")
    case False
    with Cons show ?thesis by simp
  next
    case True
    show ?thesis
    proof (cases "add_vcs opt w p c rb")
      case (Inl e)
      with True Cons.prems show ?thesis by auto
    next
      case (Inr rb1)
      with True Cons.prems have "scan_classes opt w p cs rb1 = (rb', r)" by simp
      from Cons.IH[OF this] add_vcs_Inr[OF Inr] show ?thesis by auto
    qed
  qed
qed

lemma scan_classes_no_match:
  "filter (\<lambda>x. match x (inherited p)) cs = [] \<Longrightarrow> scan_classes opt w p cs rb = (rb, None)"
  by (induction cs) (auto split: if_splits)

lemma scan_classes_single:
  "filter (\<lambda>x. match x (inherited p)) cs = [c] \<Longrightarrow>
     scan_classes opt w p cs rb =
       (case add_vcs opt w p c rb of Inl e \<Rightarrow> (rb, Some e) | Inr rb' \<Rightarrow> (rb', None))"
proof (induction cs)
  case Nil
  then show ?case by simp
next
  case (Cons a cs)
  show ?case
  proof (cases "match a (inherited p)")
    case True
    with Cons.prems have "a = c" and "filter (\<lambda>x. match x (inherited p)) cs = []" by simp_all
    with True scan_classes_no_match[of p cs opt w] show ?thesis by (simp split: sum.splits)
  next
    case False
    with Cons show ?thesis by simp
  qed
qed

lemma enumerate_one_props:
  "known (enumerate_one opt w cs st p) \<subseteq> insert (ident p) (known st)
   \<and> (fresh (rebuilds st) \<longrightarrow> fresh (rebuilds (enumerate_one opt w cs st p)))
   \<and> processes (enumerate_one opt w cs st p) = processes st
   \<and> packages (enumerate_one opt w cs st p) = packages st
   \<and> set (erraneous st) \<subseteq> set (erraneous (enumerate_one opt w cs st p))
   \<and> set (errlog st) \<subseteq> set (errlog (enumerate_one opt w cs st p))"
proof -
  obtain rb r where s: "scan_classes opt w p cs (rebuilds st) = (rb, r)"
    by (cases "scan_classes opt w p cs (rebuilds st)")
  from scan_classes_props[OF s] s show ?thesis
    by (cases r) (auto simp: enumerate_one_def known_def)
qed

lemma enumerate_fold_props:
  "known (foldl (enumerate_one opt w cs) st ps) \<subseteq> ident ` set ps \<union> known st
   \<and> (fresh (rebuilds st) \<longrightarrow> fresh (rebuilds (foldl (enumerate_one opt w cs) st ps)))
   \<and> processes (foldl (enumerate_one opt w cs) st ps) = processes st
   \<and> packages (foldl (enumerate_one opt w cs) st ps) = packages st
   \<and> set (erraneous st) \<subseteq> set (erraneous (foldl (enumerate_one opt w cs) st ps))
   \<and> set (errlog st) \<subseteq> set (errlog (foldl (enumerate_one opt w cs) st ps))"
proof (induction ps arbitrary: st)
  case Nil
  then show ?case by simp
next
  case (Cons p ps)
  from Cons.IH[of "enumerate_one opt w cs st p"] enumerate_one_props[of opt w cs st p]
  show ?case by auto
qed

subsection \<open>The whole scan\<close>

lemma ex_match: "filter (\<lambda>x. match x (inherited (ex_package c project commit))) (vcslf None) = [GitSupport]"
  "filter (\<lambda>x. match x (inherited ex_broken)) (vcslf None) = [GitSupport]"
  by (simp_all add: ex_package_def ex_broken_def vcslf_def vcsl_def match_def)

lemma ex_pinned_init:
  "vcs_init GitSupport (ident (ex_package ''cat/pinned-1'' ''p'' ''v1.0''))
     (shell_output (ex_package ''cat/pinned-1'' ''p'' ''v1.0'') GitSupport) = Inl NonLiveEbuild"
  by (simp add: ex_package_def join_def NUL_def VCSSupport_init_def bashparse_def getenv_def)

lemma ex_broken_parse:
  "map_of (bashparse (shell_output ex_broken GitSupport) (reqenv GitSupport @ optenv GitSupport))
     ''EGIT_BRANCH'' = Some []"
  by (simp add: ex_broken_def bashparse_def)

lemma ex_a_init:
  "vcs_init GitSupport (ident (ex_package c ''a'' '''')) (shell_output (ex_package c ''a'' '''') GitSupport)
     = Inr (ex_git c ''a'')"
  by (simp add: ex_package_def join_def NUL_def VCSSupport_init_def bashparse_def getenv_def ex_git_def)

lemma member_sum_updated:
  "x \<in># sum_list (map (\<lambda>(d, v). updated_by (r v) (cpv v)) its) \<Longrightarrow> x \<in> idents its"
  by (induction its) (auto simp: idents_def updated_by_def split: if_splits)

lemma member_sum_failed:
  "x \<in># sum_list (map (\<lambda>(d, v). failed_by (r v) (cpv v)) its) \<Longrightarrow> x \<in> idents its"
  by (induction its) (auto simp: idents_def failed_by_def split: sum.splits)

lemma scan_result:
  assumes "1 \<le> jobs opt"
  shows "\<exists>st'. scan opt w types None pkgs = Some (Inr st')
     \<and> set (packages st') \<subseteq> idents (rebuilds (enumerate_packages opt w types pkgs))
     \<and> set (erraneous st') \<subseteq> known (enumerate_packages opt w types pkgs)
     \<and> set (erraneous (enumerate_packages opt w types pkgs)) \<subseteq> set (erraneous st')"
proof -
  define E where "E = enumerate_packages opt w types pkgs"
  from enumerate_fold_props[of opt w "vcslf types" initial pkgs]
  have f: "fresh (rebuilds E)" and p: "processes E = []" and k: "packages E = []"
    by (simp_all add: E_def enumerate_packages_def initial_def fresh_def)
  with assms have "wellformed opt (E\<lparr>items := rebuilds E\<rparr>)" by (simp add: wellformed_def)
  from scheduler_result[OF this, of w 0] obtain st' where
    r: "scheduler opt w None 0 (E\<lparr>items := rebuilds E\<rparr>) = Some (Inr st')"
       "mset (packages st') = updated_total opt w (E\<lparr>items := rebuilds E\<rparr>)"
       "mset (erraneous st') = failed_total opt w (E\<lparr>items := rebuilds E\<rparr>)" by blast
  from r(2) p k have pk: "mset (packages st')
      = sum_list (map (\<lambda>(d, v). updated_by (task_outcome opt w v) (cpv v)) (rebuilds E))"
    by (simp add: updated_total_def)
  from r(3) p have er: "mset (erraneous st') = mset (erraneous E)
      + sum_list (map (\<lambda>(d, v). failed_by (task_outcome opt w v) (cpv v)) (rebuilds E))"
    by (simp add: failed_total_def)
  have 1: "set (packages st') \<subseteq> idents (rebuilds E)"
  proof
    fix x assume "x \<in> set (packages st')"
    then have "x \<in># mset (packages st')" by simp
    with pk have "x \<in># sum_list (map (\<lambda>(d, v). updated_by (task_outcome opt w v) (cpv v)) (rebuilds E))"
      by simp
    then show "x \<in> idents (rebuilds E)" by (rule member_sum_updated)
  qed
  have 2: "set (erraneous st') \<subseteq> known E"
  proof
    fix x assume "x \<in> set (erraneous st')"
    then have "x \<in># mset (erraneous st')" by simp
    with er have "x \<in> set (erraneous E)
       \<or> x \<in># sum_list (map (\<lambda>(d, v). failed_by (task_outcome opt w v) (cpv v)) (rebuilds E))"
      by auto
    then show "x \<in> known E"
    proof
      assume "x \<in> set (erraneous E)"
      then show ?thesis by (simp add: known_def)
    next
      assume "x \<in># sum_list (map (\<lambda>(d, v). failed_by (task_outcome opt w v) (cpv v)) (rebuilds E))"
      then have "x \<in> idents (rebuilds E)" by (rule member_sum_failed)
      then show ?thesis by (simp add: known_def)
    qed
  qed
  have 3: "set (erraneous E) \<subseteq> set (erraneous st')"
  proof
    fix x assume "x \<in> set (erraneous E)"
    then have "x \<in># mset (erraneous st')" unfolding er by simp
    then show "x \<in> set (erraneous st')" by simp
  qed
  from r(1) 1 2 3 show ?thesis by (auto simp: scan_def E_def Let_def)
qed

lemma enumerate_packages_split:
  "enumerate_packages opt w types (pre @ p # post)
     = foldl (enumerate_one opt w (vcslf types))
         (enumerate_one opt w (vcslf types) (enumerate_packages opt w types pre) p) post"
  by (simp add: enumerate_packages_def)

lemma known_initial: "known initial = {}"
  by (simp add: known_def initial_def idents_def)

subsection \<open>Missing variables\<close>

lemma VCSSupport_init_missing:
  assumes "v \<in> set (reqenv c)"
    and "map_of (bashparse out (reqenv c @ optenv c)) v = None
       \<or> map_of (bashparse out (reqenv c @ optenv c)) v = Some []"
  shows "VCSSupport_init c i out = Inl KeyError"
proof (cases "\<exists>v \<in> set (reqenv c). map_of (bashparse out (reqenv c @ optenv c)) v = None")
  case True
  then show ?thesis by (simp add: VCSSupport_init_def Let_def)
next
  case False
  with assms have "map_of (bashparse out (reqenv c @ optenv c)) v = Some []" by auto
  with assms(1) have "v \<in> set (filter (\<lambda>v. map_of (bashparse out (reqenv c @ optenv c)) v = Some [])
      (reqenv c))" by simp
  then have "filter (\<lambda>v. map_of (bashparse out (reqenv c @ optenv c)) v = Some []) (reqenv c) \<noteq> []"
    by (metis empty_iff empty_set)
  with False show ?thesis by (simp add: VCSSupport_init_def Let_def)
qed

lemma vcs_init_missing:
  assumes "VCSSupport_init c i out = Inl KeyError"
  shows "vcs_init c i out = Inl KeyError"
  using assms by (cases c) simp_all

subsection \<open>Two packages, one path\<close>

lemma add_vcs_eval:
  assumes "vcs_init c (ident p) (shell_output p c) = Inr v"
    and "network opt \<or> (\<exists>s. getsavedrev v = Inr s \<and> truthy s)"
    and "getpath w v = Inr d"
  shows "add_vcs opt w p c rb =
           (case map_of rb d of
              None \<Rightarrow> Inr (AList.update d v rb)
            | Some t \<Rightarrow> bindE (append_vcs t v) (\<lambda>m. Inr (AList.update d m rb)))"
proof -
  from assms(2) have "(if network opt then Inr True
            else bindE (getsavedrev v) (\<lambda>saved. Inr (truthy saved))) = Inr True"
    by auto
  with assms(1,3) show ?thesis by (simp add: add_vcs_def)
qed

lemma getpath_cpv [simp]: "getpath w (v\<lparr>cpv := x\<rparr>) = getpath w v"
  by (simp add: getpath_def getenv_def Let_def split: vcs_class.splits cong: if_cong)

lemma startupdate_spawned:
  assumes "startupdate opt w False v = Inr v'"
  shows "if network opt then \<exists>path cmd. getpath w v = Inr path \<and> spawned v' = [Spawn path cmd]
         else spawned v' = []"
proof -
  from assms obtain path old where p: "getpath w v = Inr path"
    and n: "if network opt
         then \<exists>cmd. v' = v\<lparr>oldrev := Bound old, subprocess := Bound (Some \<lparr>cwd = path,
                  cmdline = cmd, remaining = polls (resp w path), returncode = status (resp w path)\<rparr>)\<rparr>
         else v' = v\<lparr>oldrev := Bound old, subprocess := Bound None\<rparr>"
    by (rule startupdate_Inr_cases)
  show ?thesis
  proof (cases "network opt")
    case True
    with n obtain cmd where "v' = v\<lparr>oldrev := Bound old, subprocess := Bound (Some \<lparr>cwd = path,
                  cmdline = cmd, remaining = polls (resp w path), returncode = status (resp w path)\<rparr>)\<rparr>"
      by auto
    then have "spawned v' = [Spawn path cmd]" by (simp add: spawned_def)
    with True p show ?thesis by auto
  next
    case False
    with n show ?thesis by (simp add: spawned_def)
  qed
qed

lemma ex_git_path: "getpath ex_w (ex_git c ''a'') = Inr ''/d/git-src/a''"
  by (simp add: ex_git_def getpath_def getenv_def)

subsection \<open>The object stored under a path\<close>

lemma grown_refl: "grown t t"
  unfolding grown_def by (rule exI[of _ "[]"]) simp

lemma grown_trans: "grown a b \<Longrightarrow> grown b c \<Longrightarrow> grown a c"
  unfolding grown_def by auto

lemma add_vcs_keeps:
  assumes "add_vcs opt w p c rb = Inr rb'" and "map_of rb d = Some t"
  shows "\<exists>t'. map_of rb' d = Some t' \<and> grown t t'"
  using add_vcs_cases[OF assms(1)]
proof (elim disjE exE conjE)
  assume "rb' = rb"
  with assms(2) grown_refl show ?thesis by auto
next
  fix dir v assume "map_of rb dir = None" "rb' = AList.update dir v rb"
  with assms(2) have "map_of rb' d = Some t" by (auto simp: update_conv')
  with grown_refl show ?thesis by auto
next
  fix dir u assume u: "map_of rb dir = Some u"
    and rb': "rb' = AList.update dir (u\<lparr>cpv := cpv u @ [ident p]\<rparr>) rb"
  show ?thesis
  proof (cases "dir = d")
    case True
    with u assms(2) have "u = t" by simp
    with rb' True have "map_of rb' d = Some (t\<lparr>cpv := cpv t @ [ident p]\<rparr>)"
      by (simp add: update_conv')
    then show ?thesis unfolding grown_def by blast
  next
    case False
    with rb' assms(2) have "map_of rb' d = Some t" by (simp add: update_conv')
    with grown_refl show ?thesis by auto
  qed
qed

lemma add_vcs_distinct:
  assumes "add_vcs opt w p c rb = Inr rb'" and "distinct (map fst rb)"
  shows "distinct (map fst rb')"
  using add_vcs_cases[OF assms(1)] assms(2) by (auto simp: distinct_update)

lemma scan_classes_keeps:
  "scan_classes opt w p cs rb = (rb', r) \<Longrightarrow>
     (distinct (map fst rb) \<longrightarrow> distinct (map fst rb'))
   \<and> (\<forall>t. map_of rb d = Some t \<longrightarrow> (\<exists>t'. map_of rb' d = Some t' \<and> grown t t'))"
proof (induction cs arbitrary: rb)
  case Nil
  with grown_refl show ?case by auto
next
  case (Cons c cs)
  show ?case
  proof (cases "match c (inherited p)")
    case False
    with Cons show ?thesis by simp
  next
    case True
    show ?thesis
    proof (cases "add_vcs opt w p c rb")
      case (Inl e)
      with True Cons.prems grown_refl show ?thesis by auto
    next
      case (Inr rb1)
      with True Cons.prems have s: "scan_classes opt w p cs rb1 = (rb', r)" by simp
      note ih = Cons.IH[OF s]
      have "distinct (map fst rb) \<longrightarrow> distinct (map fst rb')"
        using ih add_vcs_distinct[OF Inr] by blast
      moreover have "\<exists>t'. map_of rb' d = Some t' \<and> grown t t'" if "map_of rb d = Some t" for t
      proof -
        from add_vcs_keeps[OF Inr that] obtain t1 where "map_of rb1 d = Some t1" "grown t t1" by blast
        with ih grown_trans show ?thesis by blast
      qed
      ultimately show ?thesis by blast
    qed
  qed
qed

lemma rebuilds_enumerate_one:
  "rebuilds (enumerate_one opt w cs st p) = fst (scan_classes opt w p cs (rebuilds st))"
  by (cases "scan_classes opt w p cs (rebuilds st)")
     (auto simp: enumerate_one_def split: option.splits)

lemma enumerate_one_keeps:
  "(distinct (map fst (rebuilds st)) \<longrightarrow> distinct (map fst (rebuilds (enumerate_one opt w cs st p))))
   \<and> (\<forall>t. map_of (rebuilds st) d = Some t \<longrightarrow>
         (\<exists>t'. map_of (rebuilds (enumerate_one opt w cs st p)) d = Some t' \<and> grown t t'))"
proof -
  obtain rb r where s: "scan_classes opt w p cs (rebuilds st) = (rb, r)"
    by (cases "scan_classes opt w p cs (rebuilds st)")
  from scan_classes_keeps[OF s, of d] s show ?thesis by (simp add: rebuilds_enumerate_one)
qed

lemma enumerate_fold_keeps:
  "(distinct (map fst (rebuilds st)) \<longrightarrow>
       distinct (map fst (rebuilds (foldl (enumerate_one opt w cs) st ps))))
   \<and> (\<forall>t. map_of (rebuilds st) d = Some t \<longrightarrow>
         (\<exists>t'. map_of (rebuilds (foldl (enumerate_one opt w cs) st ps)) d = Some t' \<and> grown t t'))"
proof (induction ps arbitrary: st)
  case Nil
  with grown_refl show ?case by auto
next
  case (Cons p ps)
  note ih = Cons.IH[of "enumerate_one opt w cs st p"] and one = enumerate_one_keeps[of st opt w cs p d]
  have "distinct (map fst (rebuilds st)) \<longrightarrow>
       distinct (map fst (rebuilds (foldl (enumerate_one opt w cs) st (p # ps))))"
    using ih one by simp
  moreover have "\<exists>t'. map_of (rebuilds (foldl (enumerate_one opt w cs) st (p # ps))) d = Some t'
      \<and> grown t t'" if "map_of (rebuilds st) d = Some t" for t
  proof -
    from one that obtain t1 where "map_of (rebuilds (enumerate_one opt w cs st p)) d = Some t1"
      "grown t t1" by blast
    with ih grown_trans show ?thesis by (simp) blast
  qed
  ultimately show ?case by blast
qed

lemma getpath_grown: "grown t t' \<Longrightarrow> getpath w t' = getpath w t"
  by (auto simp: grown_def)


lemma grown_fields: "grown t t' \<Longrightarrow> cls t' = cls t \<and> subprocess t' = subprocess t
    \<and> set (cpv t) \<subseteq> set (cpv t')"
  by (auto simp: grown_def)

lemma enumerate_one_events: "events (enumerate_one opt w cs st p) = events st"
  by (cases "scan_classes opt w p cs (rebuilds st)")
     (auto simp: enumerate_one_def split: option.splits)

lemma enumerate_fold_events: "events (foldl (enumerate_one opt w cs) st ps) = events st"
  by (induction ps arbitrary: st) (simp_all add: enumerate_one_events)

subsection \<open>What the enumeration stores\<close>

lemma getsavedrev_cpv [simp]: "getsavedrev (v\<lparr>cpv := x\<rparr>) = getsavedrev v"
  by (simp add: getsavedrev_def getenv_def split: vcs_class.splits)







subsection \<open>Starting with and without the network\<close>





subsection \<open>An interrupt during the blocking wait\<close>

text \<open>An interrupt while the loop with one job waits for the
  child of its first object ends the loop; the child is sent \<^verbatim>\<open>terminate()\<close>, nothing is
  recorded for the object, the second object is not started.\<close>

lemma interrupt_in_wait:
  "map_option (map_sum id packages) (scan ex_opts ex_w None (Some (0, Waiting))
       [ex_package ''cat/c-1'' ''c'' '''', ex_package ''cat/a-1'' ''a'' '''']) = Some (Inr [])
   \<and> map_option (map_sum id erraneous) (scan ex_opts ex_w None (Some (0, Waiting))
       [ex_package ''cat/c-1'' ''c'' '''', ex_package ''cat/a-1'' ''a'' '''']) = Some (Inr [])
   \<and> map_option (map_sum id errlog) (scan ex_opts ex_w None (Some (0, Waiting))
       [ex_package ''cat/c-1'' ''c'' '''', ex_package ''cat/a-1'' ''a'' ''''])
       = Some (Inr [ErrInterrupted])
   \<and> map_option (map_sum id events) (scan ex_opts ex_w None (Some (0, Waiting))
       [ex_package ''cat/c-1'' ''c'' '''', ex_package ''cat/a-1'' ''a'' ''''])
       = Some (Inr [Spawn ''/d/git-src/c'' ''git fetch  origin master:master'',
                    Terminate ''/d/git-src/c''])"
  by code_simp

section \<open>The claims\<close>

subsection \<open>Claim C1\<close>

text \<open>
  Claim C1. For every work list of objects that have not been started, every answer of the
  outside world and every number of jobs \<open>N \<ge> 1\<close>, the loop without an interrupt ends,
  and \<open>packages\<close> and \<open>erraneous\<close> hold the same identifiers (as multisets, hence as
  sets; their order may differ) as after the loop with one job on the same input.
\<close>

theorem concurrency_bound_irrelevant:
  assumes "1 \<le> N" and "processes st = []" and "fresh (items st)"
  shows "\<exists>st1 stN.
           scheduler (opt\<lparr>jobs := 1\<rparr>) w None 0 st = Some (Inr st1)
         \<and> scheduler (opt\<lparr>jobs := N\<rparr>) w None 0 st = Some (Inr stN)
         \<and> mset (packages stN) = mset (packages st1)
         \<and> mset (erraneous stN) = mset (erraneous st1)
         \<and> set (packages stN) = set (packages st1)
         \<and> set (erraneous stN) = set (erraneous st1)"
proof -
  from assms have "wellformed (opt\<lparr>jobs := 1\<rparr>) st" by (simp add: wellformed_def)
  from scheduler_result[OF this, of w 0] obtain st1 where
    1: "scheduler (opt\<lparr>jobs := 1\<rparr>) w None 0 st = Some (Inr st1)"
       "mset (packages st1) = updated_total (opt\<lparr>jobs := 1\<rparr>) w st"
       "mset (erraneous st1) = failed_total (opt\<lparr>jobs := 1\<rparr>) w st" by blast
  from assms have "wellformed (opt\<lparr>jobs := N\<rparr>) st" by (simp add: wellformed_def)
  from scheduler_result[OF this, of w 0] obtain stN where
    n: "scheduler (opt\<lparr>jobs := N\<rparr>) w None 0 st = Some (Inr stN)"
       "mset (packages stN) = updated_total (opt\<lparr>jobs := N\<rparr>) w st"
       "mset (erraneous stN) = failed_total (opt\<lparr>jobs := N\<rparr>) w st" by blast
  from 1 n totals_jobs[OF assms(2)] have p: "mset (packages stN) = mset (packages st1)"
    and e: "mset (erraneous stN) = mset (erraneous st1)" by simp_all
  from p have "set (packages stN) = set (packages st1)" by (rule mset_eq_setD)
  moreover from e have "set (erraneous stN) = set (erraneous st1)" by (rule mset_eq_setD)
  ultimately show ?thesis using 1(1) n(1) p e by blast
qed

theorem concurrency_bound_irrelevant_witness:
  "\<exists>st1 stN.
           scheduler (ex_opts\<lparr>jobs := 1\<rparr>) ex_w None 0 ex_state = Some (Inr st1)
         \<and> scheduler (ex_opts\<lparr>jobs := 3\<rparr>) ex_w None 0 ex_state = Some (Inr stN)
         \<and> mset (packages stN) = mset (packages st1)
         \<and> mset (erraneous stN) = mset (erraneous st1)
         \<and> set (packages stN) = set (packages st1)
         \<and> set (erraneous stN) = set (erraneous st1)"
proof -
  have "(1::int) \<le> 3" by simp
  from concurrency_bound_irrelevant[OF this ex_state_ok] show ?thesis .
qed

subsection \<open>Claim C2\<close>

text \<open>
  Claim C2 does not hold where the interrupt arrives inside \<^verbatim>\<open>startupdate\<close>, before
  \<^verbatim>\<open>self.subprocess\<close> is assigned: the inner handler calls \<^verbatim>\<open>abortupdate\<close>, which raises
  \<^verbatim>\<open>AttributeError\<close>; the outer \<^verbatim>\<open>except Exception\<close> then records the object as erraneous and
  the loop goes on with the next object instead of returning. Here the first of two
  objects is interrupted in the first pass of a run with one job.
\<close>

theorem interrupt_in_startupdate:
  "map_option (map_sum id packages) (scan ex_opts ex_w None (Some (0, Starting))
       [ex_package ''cat/c-1'' ''c'' '''', ex_package ''cat/a-1'' ''a'' '''']) = Some (Inr [''cat/a-1''])
   \<and> map_option (map_sum id erraneous) (scan ex_opts ex_w None (Some (0, Starting))
       [ex_package ''cat/c-1'' ''c'' '''', ex_package ''cat/a-1'' ''a'' '''']) = Some (Inr [''cat/c-1''])
   \<and> map_option (map_sum id errlog) (scan ex_opts ex_w None (Some (0, Starting))
       [ex_package ''cat/c-1'' ''c'' '''', ex_package ''cat/a-1'' ''a'' ''''])
       = Some (Inr [ErrUpdating [''cat/c-1''] AttributeError])"
  by code_simp

subsection \<open>Claim C3\<close>

text \<open>
  Claim C3. When the update command of an object of the work list exits with a non-zero
  status, \<^verbatim>\<open>endupdate\<close> raises (the blocking one, and the polling one once the child has
  exited); for every number of jobs the loop without an interrupt ends with every
  identifier of the object in \<open>erraneous\<close>; \<open>erraneous\<close> and \<open>packages\<close> are otherwise made
  of what the other objects of the work list resolve to, so every other object is
  processed and the object adds nothing to \<open>packages\<close>.
\<close>

theorem nonzero_exit_is_erraneous:
  assumes "1 \<le> jobs opt" and "processes st = []" and "fresh (items st)"
    and "(d, v) \<in> set (items st)"
    and "startupdate opt w False v = Inr v'"
    and "subprocess v' = Bound (Some p)" and "returncode p \<noteq> 0"
  shows "snd (endupdate opt w True v') = Inl PyException
       \<and> (remaining p = 0 \<longrightarrow> endupdate opt w False v' = (v', Inl PyException))
       \<and> (\<exists>st'. scheduler opt w None 0 st = Some (Inr st')
            \<and> mset (cpv v) \<subseteq># mset (erraneous st')
            \<and> mset (erraneous st') = mset (erraneous st) + mset (cpv v)
                 + sum_list (map (\<lambda>(d, v). failed_by (task_outcome opt w v) (cpv v))
                                 (remove1 (d, v) (items st)))
            \<and> mset (packages st') = mset (packages st)
                 + sum_list (map (\<lambda>(d, v). updated_by (task_outcome opt w v) (cpv v))
                                 (remove1 (d, v) (items st))))"
proof -
  from assms(6,7) have o: "outcome opt w v' = Inl PyException" by (rule nonzero_exit_raises)
  with assms(5) have t: "task_outcome opt w v = Inl PyException" by (simp add: task_outcome_def)
  from assms(1-3) have "wellformed opt st" by (simp add: wellformed_def)
  from scheduler_result[OF this, of w 0] obtain st' where
    r: "scheduler opt w None 0 st = Some (Inr st')"
       "mset (packages st') = updated_total opt w st"
       "mset (erraneous st') = failed_total opt w st" by blast
  have f: "sum_list (map (\<lambda>(d, v). failed_by (task_outcome opt w v) (cpv v)) (items st))
         = mset (cpv v) + sum_list (map (\<lambda>(d, v). failed_by (task_outcome opt w v) (cpv v))
                                 (remove1 (d, v) (items st)))"
    using sum_list_map_remove1[OF assms(4), of "\<lambda>(d, v). failed_by (task_outcome opt w v) (cpv v)"] t
    by (simp add: failed_by_def)
  have u: "sum_list (map (\<lambda>(d, v). updated_by (task_outcome opt w v) (cpv v)) (items st))
         = sum_list (map (\<lambda>(d, v). updated_by (task_outcome opt w v) (cpv v))
                                 (remove1 (d, v) (items st)))"
    using sum_list_map_remove1[OF assms(4), of "\<lambda>(d, v). updated_by (task_outcome opt w v) (cpv v)"] t
    by (simp add: updated_by_def)
  from r(3) f assms(2) have e: "mset (erraneous st') = mset (erraneous st) + mset (cpv v)
                 + sum_list (map (\<lambda>(d, v). failed_by (task_outcome opt w v) (cpv v))
                                 (remove1 (d, v) (items st)))"
    by (simp add: failed_total_def)
  from r(2) u assms(2) have pk: "mset (packages st') = mset (packages st)
                 + sum_list (map (\<lambda>(d, v). updated_by (task_outcome opt w v) (cpv v))
                                 (remove1 (d, v) (items st)))"
    by (simp add: updated_total_def)
  from e have "mset (cpv v) \<subseteq># mset (erraneous st')" by simp
  moreover from assms(6,7)
  have "remaining p = 0 \<longrightarrow> endupdate opt w False v' = (v', Inl PyException)"
    by (simp add: endupdate_def resolve_def)
  ultimately show ?thesis using o r(1) e pk by (simp add: outcome_def)
qed

theorem nonzero_exit_is_erraneous_witness:
  "\<exists>st'. scheduler ex_opts ex_w None 0 ex_state = Some (Inr st')
       \<and> mset [''cat/b-1''] \<subseteq># mset (erraneous st')"
proof -
  have j: "1 \<le> jobs ex_opts" by (simp add: ex_opts_def)
  have m: "(''/d/git-src/b'', ex_git ''cat/b-1'' ''b'') \<in> set (items ex_state)"
    by (simp add: ex_state_def)
  have s: "subprocess ((ex_git ''cat/b-1'' ''b'')\<lparr>oldrev := Bound (Some ''aaa''),
          subprocess := Bound (Some \<lparr>cwd = ''/d/git-src/b'',
             cmdline = ''git fetch  origin master:master'', remaining = 1, returncode = 1\<rparr>)\<rparr>)
         = Bound (Some \<lparr>cwd = ''/d/git-src/b'',
             cmdline = ''git fetch  origin master:master'', remaining = 1, returncode = 1\<rparr>)"
    by simp
  have r: "returncode \<lparr>cwd = ''/d/git-src/b'',
             cmdline = ''git fetch  origin master:master'', remaining = 1, returncode = 1\<rparr> \<noteq> 0"
    by simp
  from nonzero_exit_is_erraneous[OF j ex_state_ok m ex_start_b s r]
  show ?thesis by (auto simp: ex_git_def)
qed

subsection \<open>Claim C4\<close>

text \<open>
  Claim C4. When \<^verbatim>\<open>endupdate\<close> reaches the comparison with old revision \<open>old\<close> and new
  revision \<open>new\<close>, a Subversion object resolves to "no changes" exactly when \<open>old \<ge> new\<close>
  and an object of any other class exactly when \<open>old = new\<close>; for Subversion, 5 against 5
  and 5 against 3 are unchanged and 3 against 5 is changed; the comparison of every other
  class is equality.
\<close>

theorem svn_revcmp_ge:
  assumes "getpath w self = Inr path" and "chdir_ok (resp w path)"
    and "jobs opt > 1 \<longrightarrow> (\<exists>s. str_vcs self = Inr s)"
    and "oldrev self = Bound (Some old)"
    and "getrev self (call_end (resp w path)) = Inr (Some new)"
    and "diffstat self = Inr ()"
  shows "(cls self = SvnSupport \<longrightarrow> resolve opt w self 0 = Inr (\<not> old \<ge> new))
       \<and> (cls self \<noteq> SvnSupport \<longrightarrow> resolve opt w self 0 = Inr (old \<noteq> new))
       \<and> revcmp SvnSupport (Some ''5'') (Some ''5'') = Inr True
       \<and> revcmp SvnSupport (Some ''5'') (Some ''3'') = Inr True
       \<and> revcmp SvnSupport (Some ''3'') (Some ''5'') = Inr False
       \<and> (\<forall>c a b. c \<noteq> SvnSupport \<longrightarrow> revcmp c a b = Inr (a = b))"
  using resolve_reached[OF assms(1,2,5,3,4)] assms(6)
  by (auto simp: revcmp_def split: vcs_class.splits)

theorem svn_revcmp_ge_witness:
  "resolve ex_opts (ex_svn_world ''5'') (ex_svn ''5'') 0 = Inr False
   \<and> resolve ex_opts (ex_svn_world ''3'') (ex_svn ''5'') 0 = Inr False
   \<and> resolve ex_opts (ex_svn_world ''5'') (ex_svn ''3'') 0 = Inr True"
proof -
  note a = svn_revcmp_ge[OF ex_svn_facts(1,2,3,4) ex_svn_getrev(1) ex_svn_facts(5)]
  note b = svn_revcmp_ge[OF ex_svn_facts(1,2,3,4) ex_svn_getrev(2) ex_svn_facts(5)]
  have 1: "resolve ex_opts (ex_svn_world ''5'') (ex_svn ''5'') 0 = Inr False"
    using a[of "''5''"] ex_svn_facts(6) by simp
  have 2: "resolve ex_opts (ex_svn_world ''3'') (ex_svn ''5'') 0 = Inr False"
    using b[of "''5''"] ex_svn_facts(6) by simp
  have 3: "resolve ex_opts (ex_svn_world ''5'') (ex_svn ''3'') 0 = Inr True"
    using a[of "''3''"] ex_svn_facts(6) by simp
  from 1 2 3 show ?thesis by simp
qed

subsection \<open>Claim C6\<close>

text \<open>
  Claim C6, as stated, fails: when the child has written nothing, the parent does not go
  on with an empty result (which would write \<^verbatim>\<open>No updates found\<close>); it does nothing but
  the \<^verbatim>\<open>finally\<close> clause.
\<close>

theorem no_data_counterexample:
  "parent ex_opts [] (\<lambda>bytes. Truncated) [] = ([KillChild], Return 1)
   \<and> finish ex_opts [] [] [] = ([NoUpdatesFound], Return 0)
   \<and> fst (parent ex_opts [] (\<lambda>bytes. Truncated) []) \<noteq> fst (finish ex_opts [] [] []) @ [KillChild]"
  by (simp add: parent_def pickle_load_def finish_def ex_opts_def)

text \<open>
  Claim C6, amended. When the child has written no byte, \<^verbatim>\<open>pickle.load\<close> raises
  \<^verbatim>\<open>EOFError\<close>, which the parent catches; the parent then returns exit code 1 at once:
  it sends \<^verbatim>\<open>SIGTERM\<close> to the child (the \<^verbatim>\<open>finally\<close> clause) and does nothing else, whereas
  going on with an empty result would write \<^verbatim>\<open>No updates found\<close> and return 0.
\<close>

theorem no_data_returns_at_once:
  "pickle_load decode [] = Inl EOFError
   \<and> parent opt args decode [] = ([KillChild], Return 1)
   \<and> finish opt args [] [] = ([NoUpdatesFound], Return 0)"
  by (simp add: parent_def pickle_load_def finish_def)

subsection \<open>Claim C7\<close>

text \<open>
  Claim C7, as stated, fails: for a package that a constructor rejects with
  \<^verbatim>\<open>NonLiveEbuild\<close> (here Git with \<^verbatim>\<open>EGIT_COMMIT\<close> set to a tag), the handler writes a line
  with \<^verbatim>\<open>out.err\<close>.
\<close>

theorem nonlive_logged_counterexample:
  "vcs_init GitSupport ''cat/pinned-1''
      (shell_output (ex_package ''cat/pinned-1'' ''p'' ''v1.0'') GitSupport) = Inl NonLiveEbuild
   \<and> errlog (enumerate_packages ex_opts ex_w None [ex_package ''cat/pinned-1'' ''p'' ''v1.0''])
       = [ErrNonLive ''cat/pinned-1'']"
  using ex_pinned_init scan_classes_single[OF ex_match(1), of ex_opts ex_w "''cat/pinned-1''" "''p''" "''v1.0''" "[]"]
  by (simp add: enumerate_packages_def enumerate_one_def initial_def add_vcs_def)
     (simp add: ex_package_def)

text \<open>
  Claim C7, amended. For a package matched by one class whose constructor raises
  \<^verbatim>\<open>NonLiveEbuild\<close>, the enumeration changes nothing but the error log, to which it adds one
  line for the package; the scan goes on to its end, and the identifier of the package
  (no other enumerated package has it) is neither in \<open>packages\<close> nor in \<open>erraneous\<close>.
\<close>

theorem nonlive_excluded:
  assumes m: "filter (\<lambda>x. match x (inherited p)) (vcslf types) = [c]"
    and n: "vcs_init c (ident p) (shell_output p c) = Inl NonLiveEbuild"
    and u: "ident p \<notin> ident ` set (pre @ post)"
    and j: "1 \<le> jobs opt"
  shows "enumerate_one opt w (vcslf types) st p = st\<lparr>errlog := errlog st @ [ErrNonLive (ident p)]\<rparr>
       \<and> ErrNonLive (ident p) \<in> set (errlog (enumerate_packages opt w types (pre @ p # post)))
       \<and> (\<exists>st'. scan opt w types None (pre @ p # post) = Some (Inr st')
             \<and> ident p \<notin> set (packages st') \<and> ident p \<notin> set (erraneous st'))"
proof -
  have one: "enumerate_one opt w (vcslf types) s p = s\<lparr>errlog := errlog s @ [ErrNonLive (ident p)]\<rparr>" for s
    using scan_classes_single[OF m, of opt w "rebuilds s"] n
    by (simp add: enumerate_one_def add_vcs_def)
  define A where "A = enumerate_packages opt w types pre"
  define B where "B = enumerate_one opt w (vcslf types) A p"
  define E where "E = enumerate_packages opt w types (pre @ p # post)"
  have E: "E = foldl (enumerate_one opt w (vcslf types)) B post"
    by (simp add: E_def B_def A_def enumerate_packages_split)
  from enumerate_fold_props[of opt w "vcslf types" initial pre]
  have kA: "known A \<subseteq> ident ` set pre" by (simp add: A_def enumerate_packages_def known_initial)
  have B: "B = A\<lparr>errlog := errlog A @ [ErrNonLive (ident p)]\<rparr>" by (simp add: B_def one)
  then have kB: "known B = known A" and lB: "ErrNonLive (ident p) \<in> set (errlog B)"
    by (simp_all add: known_def)
  from enumerate_fold_props[of opt w "vcslf types" B post] E
  have kE: "known E \<subseteq> ident ` set post \<union> known B" and lE: "set (errlog B) \<subseteq> set (errlog E)"
    by simp_all
  from kE kB kA u have notin: "ident p \<notin> known E" by auto
  from scan_result[OF j, of w types "pre @ p # post"] obtain st' where
    s: "scan opt w types None (pre @ p # post) = Some (Inr st')"
       "set (packages st') \<subseteq> idents (rebuilds E)" "set (erraneous st') \<subseteq> known E"
    by (auto simp: E_def)
  from s(2,3) notin have "ident p \<notin> set (packages st')" "ident p \<notin> set (erraneous st')"
    by (auto simp: known_def)
  with s(1) one lB lE show ?thesis by (auto simp: E_def)
qed

theorem nonlive_excluded_witness:
  "ErrNonLive ''cat/pinned-1'' \<in> set (errlog (enumerate_packages ex_opts ex_w None
        ([ex_package ''cat/a-1'' ''a'' ''''] @ ex_package ''cat/pinned-1'' ''p'' ''v1.0'' # [])))
   \<and> (\<exists>st'. scan ex_opts ex_w None None
         ([ex_package ''cat/a-1'' ''a'' ''''] @ ex_package ''cat/pinned-1'' ''p'' ''v1.0'' # []) = Some (Inr st')
          \<and> ''cat/pinned-1'' \<notin> set (packages st') \<and> ''cat/pinned-1'' \<notin> set (erraneous st'))"
proof -
  have u: "ident (ex_package ''cat/pinned-1'' ''p'' ''v1.0'') \<notin> ident ` set ([ex_package ''cat/a-1'' ''a'' ''''] @ [])"
    by (simp add: ex_package_def)
  have j: "1 \<le> jobs ex_opts" by (simp add: ex_opts_def)
  have i: "ident (ex_package ''cat/pinned-1'' ''p'' ''v1.0'') = ''cat/pinned-1''" by (simp add: ex_package_def)
  from nonlive_excluded[OF ex_match(1) ex_pinned_init u j, of ex_w] i show ?thesis by simp
qed

subsection \<open>Claim C8\<close>

text \<open>
  Claim C8, as stated, fails: a package whose environment cannot be sourced (the shell
  prints nothing, so that the first required variable is empty and the others are absent)
  is rejected with \<^verbatim>\<open>KeyError\<close>, and the handler appends its identifier to \<open>erraneous\<close>.
\<close>

theorem missing_variable_counterexample:
  "vcs_init GitSupport ''cat/broken-1'' (shell_output ex_broken GitSupport) = Inl KeyError
   \<and> erraneous (enumerate_packages ex_opts ex_w None [ex_broken]) = [''cat/broken-1'']"
proof -
  have r: "''EGIT_BRANCH'' \<in> set (reqenv GitSupport)" by simp
  have i: "vcs_init GitSupport (ident ex_broken) (shell_output ex_broken GitSupport) = Inl KeyError"
    by (rule vcs_init_missing, rule VCSSupport_init_missing[OF r]) (use ex_broken_parse in simp)
  from i scan_classes_single[OF ex_match(2), of ex_opts ex_w "[]"] show ?thesis
    by (simp add: enumerate_packages_def enumerate_one_def initial_def add_vcs_def)
       (simp add: ex_broken_def)
qed

text \<open>
  Claim C8, amended. When the parsed environment of a package matched by one class leaves
  a required variable of that class absent or empty, the constructor raises \<^verbatim>\<open>KeyError\<close>;
  the package yields no object, one line is written with \<^verbatim>\<open>out.err\<close>, and its identifier is
  appended to \<open>erraneous\<close>, where it still is at the end of the scan: the same disposition
  as for a failed update.
\<close>

theorem missing_variable_is_erraneous:
  assumes m: "filter (\<lambda>x. match x (inherited p)) (vcslf types) = [c]"
    and v: "v \<in> set (reqenv c)"
    and e: "map_of (bashparse (shell_output p c) (reqenv c @ optenv c)) v = None
          \<or> map_of (bashparse (shell_output p c) (reqenv c @ optenv c)) v = Some []"
    and j: "1 \<le> jobs opt"
  shows "vcs_init c (ident p) (shell_output p c) = Inl KeyError
       \<and> enumerate_one opt w (vcslf types) st p
           = st\<lparr>errlog := errlog st @ [ErrEnumerating (ident p) KeyError],
                erraneous := erraneous st @ [ident p]\<rparr>
       \<and> (\<exists>st'. scan opt w types None (pre @ p # post) = Some (Inr st')
             \<and> ident p \<in> set (erraneous st'))"
proof -
  have i: "vcs_init c (ident p) (shell_output p c) = Inl KeyError"
    by (rule vcs_init_missing, rule VCSSupport_init_missing[OF v e])
  have one: "enumerate_one opt w (vcslf types) s p
           = s\<lparr>errlog := errlog s @ [ErrEnumerating (ident p) KeyError],
                erraneous := erraneous s @ [ident p]\<rparr>" for s
    using scan_classes_single[OF m, of opt w "rebuilds s"] i
    by (simp add: enumerate_one_def add_vcs_def)
  define B where "B = enumerate_one opt w (vcslf types) (enumerate_packages opt w types pre) p"
  define E where "E = enumerate_packages opt w types (pre @ p # post)"
  have E: "E = foldl (enumerate_one opt w (vcslf types)) B post"
    by (simp add: E_def B_def enumerate_packages_split)
  have "ident p \<in> set (erraneous B)" by (simp add: B_def one)
  with enumerate_fold_props[of opt w "vcslf types" B post] E
  have inE: "ident p \<in> set (erraneous E)" by auto
  from scan_result[OF j, of w types "pre @ p # post"] obtain st' where
    s: "scan opt w types None (pre @ p # post) = Some (Inr st')"
       "set (erraneous E) \<subseteq> set (erraneous st')"
    by (auto simp: E_def)
  with inE have "ident p \<in> set (erraneous st')" by auto
  with i one s(1) show ?thesis by auto
qed

theorem missing_variable_is_erraneous_witness:
  "\<exists>st'. scan ex_opts ex_w None None ([] @ ex_broken # [ex_package ''cat/a-1'' ''a'' '''']) = Some (Inr st')
        \<and> ''cat/broken-1'' \<in> set (erraneous st')"
proof -
  have r: "''EGIT_BRANCH'' \<in> set (reqenv GitSupport)" by simp
  have e: "map_of (bashparse (shell_output ex_broken GitSupport) (reqenv GitSupport @ optenv GitSupport))
        ''EGIT_BRANCH'' = None
     \<or> map_of (bashparse (shell_output ex_broken GitSupport) (reqenv GitSupport @ optenv GitSupport))
        ''EGIT_BRANCH'' = Some []"
    using ex_broken_parse by simp
  have j: "1 \<le> jobs ex_opts" by (simp add: ex_opts_def)
  have i: "ident ex_broken = ''cat/broken-1''" by (simp add: ex_broken_def)
  from missing_variable_is_erraneous[OF ex_match(2) r e j,
      where w = ex_w and pre = "[]" and post = "[ex_package ''cat/a-1'' ''a'' '''']"] i
  show ?thesis by simp
qed

subsection \<open>Claim C9\<close>




subsection \<open>Claim C10\<close>

text \<open>
  Claim C10, as stated, fails: the saved revision of a Subversion object is the value of
  \<^verbatim>\<open>ESVN_WC_REVISION\<close> as the environment of the package gives it, and nothing checks that
  it is a string of decimal digits. Here it is \<^verbatim>\<open>HEAD\<close>: the constructor accepts the package,
  \<^verbatim>\<open>startupdate\<close> takes \<^verbatim>\<open>HEAD\<close> as the old revision, and \<^verbatim>\<open>endupdate\<close> compares it with the
  new revision 10 (the object resolves to "no changes").
\<close>

theorem saved_revision_counterexample:
  "rebuilds (enumerate_packages ex_opts (ex_svn_world ''10'') None
        [ex_svn_package ''dev-libs/foo-9999'' ''/d/svn-src/foo'' ''HEAD''])
     = [(''/d/svn-src/foo'', (ex_svn ''HEAD'')\<lparr>oldrev := Unset, subprocess := Unset\<rparr>)]
   \<and> getsavedrev (ex_svn ''HEAD'') = Inr (Some ''HEAD'')
   \<and> map_sum id oldrev (startupdate ex_opts (ex_svn_world ''10'') False
         ((ex_svn ''HEAD'')\<lparr>oldrev := Unset, subprocess := Unset\<rparr>)) = Inr (Bound (Some ''HEAD''))
   \<and> \<not> digits ''HEAD''
   \<and> map_option (map_sum id (\<lambda>st. (packages st, erraneous st, events st)))
        (scan ex_opts (ex_svn_world ''10'') None None
           [ex_svn_package ''dev-libs/foo-9999'' ''/d/svn-src/foo'' ''HEAD''])
       = Some (Inr ([], [], [Spawn ''/d/svn-src/foo'' ''svn up  --config-dir /d/svn-src/.subversion'',
                       Compare ''/d/svn-src/foo'']))"
  by code_simp

text \<open>
  Claim C10, amended. The new revision that Subversion's \<^verbatim>\<open>getrev\<close> parses from the output
  of \<^verbatim>\<open>svn info\<close> is a non-empty string of decimal digits; the saved revision is the value
  of \<^verbatim>\<open>ESVN_WC_REVISION\<close>, whatever it is. The comparison \<open>old \<ge> new\<close> is the order of
  strings, character by character (lexicographic), and not the order of numbers: a
  Subversion object with old revision \<open>old\<close> and new revision \<open>new\<close> resolves to "no
  changes" exactly when \<open>old \<ge> new\<close> as strings. So it resolves to "no changes" whenever
  the old revision is greater or equal as a string and smaller as a number (9 against 10),
  and to "changed" whenever it is smaller as a string and not smaller as a number (10
  against 9).
\<close>

theorem svn_revcmp_lexicographic:
  assumes "cls self = SvnSupport"
    and "getpath w self = Inr path" and "chdir_ok (resp w path)"
    and "jobs opt > 1 \<longrightarrow> (\<exists>s. str_vcs self = Inr s)"
    and "oldrev self = Bound (Some old)"
    and "getrev self (call_end (resp w path)) = Inr (Some new)"
  shows "digits new
       \<and> getsavedrev self = map_sum id Some (getenv self ''ESVN_WC_REVISION'')
       \<and> revcmp SvnSupport (Some old) (Some new) = Inr (old \<ge> new)
       \<and> (old \<ge> new \<longleftrightarrow> old = new \<or> (new, old) \<in> lexord {(a, b). a < b})
       \<and> resolve opt w self 0 = Inr (\<not> old \<ge> new)
       \<and> (old \<ge> new \<and> decimal old < decimal new \<longrightarrow> resolve opt w self 0 = Inr False)
       \<and> (\<not> old \<ge> new \<and> decimal new \<le> decimal old \<longrightarrow> resolve opt w self 0 = Inr True)"
proof -
  from assms(1,6) obtain out where "revre_search out = Some new"
    by (auto simp: getrev_def bindE_Inr_iff)
  then have d: "digits new" by (rule revre_search_digits)
  have s: "getsavedrev self = map_sum id Some (getenv self ''ESVN_WC_REVISION'')"
    using assms(1) by (cases "getenv self ''ESVN_WC_REVISION''") (simp_all add: getsavedrev_def)
  have c: "revcmp SvnSupport (Some old) (Some new) = Inr (old \<ge> new)"
    by (simp add: revcmp_def)
  have l: "old \<ge> new \<longleftrightarrow> old = new \<or> (new, old) \<in> lexord {(a, b). a < b}"
    by (auto simp: list_le_def list_less_def)
  have "diffstat self = Inr ()" using assms(1) by (simp add: diffstat_def)
  with resolve_reached[OF assms(2,3,6,4,5)] assms(1) c
  have r: "resolve opt w self 0 = Inr (\<not> old \<ge> new)" by simp
  from d s c l r show ?thesis by simp
qed

theorem svn_revcmp_lexicographic_witness:
  "(''9''::string) \<ge> ''10'' \<and> decimal ''9'' < decimal ''10''
   \<and> resolve ex_opts (ex_svn_world ''10'') (ex_svn ''9'') 0 = Inr False
   \<and> \<not> (''10''::string) \<ge> ''9'' \<and> decimal ''9'' \<le> decimal ''10''
   \<and> resolve ex_opts (ex_svn_world ''9'') (ex_svn ''10'') 0 = Inr True
   \<and> digits [CHR 0xD9, CHR 0xA3]
   \<and> resolve ex_opts (ex_svn_world [CHR 0xD9, CHR 0xA3]) (ex_svn ''9'') 0 = Inr True"
proof -
  have l: "(''9''::string) \<ge> ''10''" "\<not> (''10''::string) \<ge> ''9''"
    "\<not> (''9''::string) \<ge> [CHR 0xD9, CHR 0xA3]" by simp_all
  have n: "decimal ''9'' < decimal ''10''" "decimal ''9'' \<le> decimal ''10''"
    by (simp_all add: decimal_def code_points_def digit_value_def nd_zeros_def)
  note a = svn_revcmp_lexicographic[OF ex_svn_facts(6,1,2,3,4) ex_svn_getrev(3), of "''9''"]
  note b = svn_revcmp_lexicographic[OF ex_svn_facts(6,1,2,3,4) ex_svn_getrev(4), of "''10''"]
  note c = svn_revcmp_lexicographic[OF ex_svn_facts(6,1,2,3,4) ex_svn_getrev(5), of "''9''"]
  from a l have 1: "resolve ex_opts (ex_svn_world ''10'') (ex_svn ''9'') 0 = Inr False" by simp
  from b l have 2: "resolve ex_opts (ex_svn_world ''9'') (ex_svn ''10'') 0 = Inr True" by simp
  from c l have 3: "digits [CHR 0xD9, CHR 0xA3]"
    "resolve ex_opts (ex_svn_world [CHR 0xD9, CHR 0xA3]) (ex_svn ''9'') 0 = Inr True" by simp_all
  from 1 2 3 l n show ?thesis by simp
qed

end
